theory Spec2Isabelle
  imports Main "HOL-Library.AList"
begin
section \<open>JavaScript values\<close>

text \<open>
  The store, the reducers and the worker protocol handle untyped JavaScript values.
  A value is a primitive, an array or an object; an object is the list of its own
  properties in insertion order. Numbers are integers here (identifiers, counters and
  millisecond clocks are); \<open>NaN\<close> and fractions are outside the model, and so are
  function values.
\<close>

datatype jsval =
    JUndefined
  | JNull
  | JBool bool
  | JNum int
  | JStr string
  | JArr "jsval list"
  | JObj "(string \<times> jsval) list"

type_synonym jsobj = "(string \<times> jsval) list"

text \<open>What the code can throw: a \<open>TypeError\<close> of the language itself, or the
  \<open>Error\<close> objects the program creates with \<open>new Error(message)\<close>.\<close>

datatype js_error = TypeError | Error string | SyntaxError

definition bindE :: "js_error + 'a \<Rightarrow> ('a \<Rightarrow> js_error + 'b) \<Rightarrow> js_error + 'b" where
  "bindE m f = (case m of Inl e \<Rightarrow> Inl e | Inr x \<Rightarrow> f x)"

text \<open>\<open>mapE f xs\<close> is \<open>xs.map(f)\<close> with a callback that may throw: the first throw
  aborts the loop.\<close>

fun mapE :: "('a \<Rightarrow> js_error + 'b) \<Rightarrow> 'a list \<Rightarrow> js_error + 'b list" where
  "mapE f [] = Inr []"
| "mapE f (x # xs) =
     (case f x of
        Inl e \<Rightarrow> Inl e
      | Inr y \<Rightarrow> (case mapE f xs of Inl e \<Rightarrow> Inl e | Inr ys \<Rightarrow> Inr (y # ys)))"

text \<open>\<open>filterE p xs\<close> is \<open>xs.filter(p)\<close> with a predicate that may throw.\<close>

fun filterE :: "('a \<Rightarrow> js_error + bool) \<Rightarrow> 'a list \<Rightarrow> js_error + 'a list" where
  "filterE p [] = Inr []"
| "filterE p (x # xs) =
     (case p x of
        Inl e \<Rightarrow> Inl e
      | Inr b \<Rightarrow> (case filterE p xs of
                    Inl e \<Rightarrow> Inl e
                  | Inr ys \<Rightarrow> Inr (if b then x # ys else ys)))"

text \<open>Truthiness: what \<open>if (v)\<close>, \<open>!v\<close>, \<open>v && w\<close> and \<open>v || w\<close> test.\<close>

fun truthy :: "jsval \<Rightarrow> bool" where
  "truthy JUndefined = False"
| "truthy JNull = False"
| "truthy (JBool b) = b"
| "truthy (JNum n) = (n \<noteq> 0)"
| "truthy (JStr s) = (s \<noteq> [])"
| "truthy (JArr xs) = True"
| "truthy (JObj ps) = True"

fun is_primitive :: "jsval \<Rightarrow> bool" where
  "is_primitive (JArr xs) = False"
| "is_primitive (JObj ps) = False"
| "is_primitive v = True"

text \<open>
  \<open>a === b\<close>. On primitives it is equality of the values. On two arrays or objects it
  compares references, which values do not carry: the model answers \<open>False\<close> there,
  as for two objects built separately.
\<close>

definition strict_eq :: "jsval \<Rightarrow> jsval \<Rightarrow> bool" where
  "strict_eq a b = (is_primitive a \<and> a = b)"

text \<open>\<open>typeof v === "object"\<close>: true of objects, arrays and \<open>null\<close>.\<close>

fun typeof_object :: "jsval \<Rightarrow> bool" where
  "typeof_object JNull = True"
| "typeof_object (JArr xs) = True"
| "typeof_object (JObj ps) = True"
| "typeof_object v = False"

text \<open>
  \<open>propv k ps\<close> reads property \<open>k\<close> of an object: \<open>undefined\<close> when absent. Should
  a property list name a key twice, the later entry counts, as in an object literal.
\<close>

definition propv :: "string \<Rightarrow> jsobj \<Rightarrow> jsval" where
  "propv k ps = (case map_of (rev ps) k of None \<Rightarrow> JUndefined | Some v \<Rightarrow> v)"

text \<open>
  \<open>get_prop k v\<close> is the member access \<open>v.k\<close> for a property name \<open>k\<close> that no
  built-in prototype defines (the code reads \<open>id\<close>, \<open>type\<close>, \<open>payload\<close>,
  \<open>menuOpen\<close>): it throws on \<open>null\<close> and \<open>undefined\<close>, reads the own property of
  an object, and is \<open>undefined\<close> on every other value.
\<close>

fun get_prop :: "string \<Rightarrow> jsval \<Rightarrow> js_error + jsval" where
  "get_prop k JUndefined = Inl TypeError"
| "get_prop k JNull = Inl TypeError"
| "get_prop k (JObj ps) = Inr (propv k ps)"
| "get_prop k v = Inr JUndefined"

subsection \<open>Decimal numerals\<close>

text \<open>Template strings print numbers in decimal.\<close>

definition digit_char :: "nat \<Rightarrow> char" where
  "digit_char d = ''0123456789'' ! d"

fun show_nat :: "nat \<Rightarrow> string" where
  "show_nat n = (if n < 10 then [digit_char n] else show_nat (n div 10) @ [digit_char (n mod 10)])"

declare show_nat.simps [simp del]

subsection \<open>Spread\<close>

text \<open>
  \<open>own_props v\<close> lists what \<open>{...v}\<close> copies: the own properties of an object, the
  indexed elements of an array, the indexed characters of a string, and nothing for
  the other primitives.
\<close>

fun own_props :: "jsval \<Rightarrow> jsobj" where
  "own_props (JObj ps) = ps"
| "own_props (JArr xs) = map (\<lambda>i. (show_nat i, xs ! i)) [0..<length xs]"
| "own_props (JStr s) = map (\<lambda>i. (show_nat i, JStr [s ! i])) [0..<length s]"
| "own_props v = []"

text \<open>
  \<open>assign ps qs\<close> writes the properties \<open>qs\<close> one after the other into the object
  \<open>ps\<close>: a property that exists keeps its place and takes the new value, a new one
  is appended.
\<close>

definition assign :: "jsobj \<Rightarrow> jsobj \<Rightarrow> jsobj" where
  "assign ps qs = fold (\<lambda>(k, v). AList.update k v) qs ps"

text \<open>\<open>spread2 a b\<close> is the object literal \<open>{...a, ...b}\<close>.\<close>

definition spread2 :: "jsval \<Rightarrow> jsval \<Rightarrow> jsobj" where
  "spread2 a b = assign (assign [] (own_props a)) (own_props b)"

text \<open>\<open>iterate v\<close> is what the array literal \<open>[...v]\<close> copies: arrays and strings are
  iterable, anything else throws.\<close>

fun iterate :: "jsval \<Rightarrow> js_error + jsval list" where
  "iterate (JArr xs) = Inr xs"
| "iterate (JStr s) = Inr (map (\<lambda>c. JStr [c]) s)"
| "iterate v = Inl TypeError"

section \<open>Actions (actions.js)\<close>

definition SET_LOADING :: string where "SET_LOADING = ''ui/setLoading''"
definition SET_DARK_MODE :: string where "SET_DARK_MODE = ''ui/setDarkMode''"
definition TOGGLE_MENU :: string where "TOGGLE_MENU = ''ui/toggleMenu''"
definition SET_FILTER_STATUS :: string where "SET_FILTER_STATUS = ''ui/setFilterStatus''"
definition LOAD_INCIDENTS :: string where "LOAD_INCIDENTS = ''incidents/loadIncidents''"
definition SET_INCIDENTS :: string where "SET_INCIDENTS = ''incidents/setIncidents''"
definition ADD_INCIDENT :: string where "ADD_INCIDENT = ''incidents/addIncident''"
definition UPDATE_INCIDENT :: string where "UPDATE_INCIDENT = ''incidents/updateIncident''"
definition DELETE_INCIDENT :: string where "DELETE_INCIDENT = ''incidents/deleteIncident''"
definition SET_CURRENT_INCIDENT :: string where
  "SET_CURRENT_INCIDENT = ''incidents/setCurrentIncident''"
definition CLEAR_CURRENT_INCIDENT :: string where
  "CLEAR_CURRENT_INCIDENT = ''incidents/clearCurrentIncident''"
definition ADD_NOTIFICATION :: string where
  "ADD_NOTIFICATION = ''notifications/addNotification''"
definition REMOVE_NOTIFICATION :: string where
  "REMOVE_NOTIFICATION = ''notifications/removeNotification''"
definition MARK_NOTIFICATION_DISPLAYED :: string where
  "MARK_NOTIFICATION_DISPLAYED = ''notifications/markNotificationDisplayed''"
definition SET_ERROR :: string where "SET_ERROR = ''errors/setError''"
definition CLEAR_ERROR :: string where "CLEAR_ERROR = ''errors/clearError''"

text \<open>\<open>createAction(type)\<close> returns the creator \<open>(payload) => ({ type, payload })\<close>.\<close>

definition createAction :: "string \<Rightarrow> jsval \<Rightarrow> jsval" where
  "createAction ty payload = JObj [(''type'', JStr ty), (''payload'', payload)]"

definition setLoading :: "jsval \<Rightarrow> jsval" where "setLoading = createAction SET_LOADING"
definition setIncidents :: "jsval \<Rightarrow> jsval" where "setIncidents = createAction SET_INCIDENTS"
definition addIncident :: "jsval \<Rightarrow> jsval" where "addIncident = createAction ADD_INCIDENT"
definition updateIncident :: "jsval \<Rightarrow> jsval" where
  "updateIncident = createAction UPDATE_INCIDENT"
definition setError :: "jsval \<Rightarrow> jsval" where "setError = createAction SET_ERROR"

section \<open>Reducers (reducers.js)\<close>

text \<open>
  Every slice reducer is \<open>(state = default, action, globalState) => nextSlice\<close>; none
  reads \<open>globalState\<close>. The default applies when the slice is \<open>undefined\<close>. The
  action is the object the store built, so \<open>action.type\<close> and \<open>action.payload\<close>
  are plain property reads.
\<close>

definition default_param :: "jsval \<Rightarrow> jsval \<Rightarrow> jsval" where
  "default_param d v = (if v = JUndefined then d else v)"

definition uiReducer :: "jsval \<Rightarrow> jsobj \<Rightarrow> js_error + jsval" where
  "uiReducer state0 action =
    (let state = default_param (JObj []) state0;
         ty = propv ''type'' action;
         payload = propv ''payload'' action
     in if ty = JStr SET_LOADING then
          Inr (JObj (assign (assign [] (own_props state)) [(''loading'', payload)]))
        else if ty = JStr SET_DARK_MODE then
          Inr (JObj (assign (assign [] (own_props state)) [(''darkMode'', payload)]))
        else if ty = JStr TOGGLE_MENU then
          (if payload \<noteq> JUndefined then
             Inr (JObj (assign (assign [] (own_props state)) [(''menuOpen'', payload)]))
           else
             bindE (get_prop ''menuOpen'' state) (\<lambda>m.
               Inr (JObj (assign (assign [] (own_props state))
                                 [(''menuOpen'', JBool (\<not> truthy m))]))))
        else if ty = JStr SET_FILTER_STATUS then
          Inr (JObj (assign (assign [] (own_props state)) [(''filterStatus'', payload)]))
        else Inr state)"

text \<open>The callback of \<open>state.map\<close> in the \<open>UPDATE_INCIDENT\<close> case:
  \<open>incident.id === action.payload.id ? { ...incident, ...action.payload } : incident\<close>.\<close>

definition update_one :: "jsval \<Rightarrow> jsval \<Rightarrow> js_error + jsval" where
  "update_one payload incident =
     bindE (get_prop ''id'' incident) (\<lambda>iid.
     bindE (get_prop ''id'' payload) (\<lambda>pid.
       Inr (if strict_eq iid pid then JObj (spread2 incident payload) else incident)))"

text \<open>The callback of \<open>state.filter\<close> in the \<open>DELETE_INCIDENT\<close> case:
  \<open>incident.id !== action.payload\<close>.\<close>

definition keep_one :: "jsval \<Rightarrow> jsval \<Rightarrow> js_error + bool" where
  "keep_one payload incident =
     bindE (get_prop ''id'' incident) (\<lambda>iid. Inr (\<not> strict_eq iid payload))"

definition incidentsReducer :: "jsval \<Rightarrow> jsobj \<Rightarrow> js_error + jsval" where
  "incidentsReducer state0 action =
    (let state = default_param (JArr []) state0;
         ty = propv ''type'' action;
         payload = propv ''payload'' action
     in if ty = JStr SET_INCIDENTS then
          Inr (if truthy payload then payload else JArr [])
        else if ty = JStr ADD_INCIDENT then
          bindE (iterate state) (\<lambda>xs. Inr (JArr (xs @ [payload])))
        else if ty = JStr UPDATE_INCIDENT then
          (case state of
             JArr xs \<Rightarrow> bindE (mapE (update_one payload) xs) (\<lambda>ys. Inr (JArr ys))
           | _ \<Rightarrow> Inl TypeError)
        else if ty = JStr DELETE_INCIDENT then
          (case state of
             JArr xs \<Rightarrow> bindE (filterE (keep_one payload) xs) (\<lambda>ys. Inr (JArr ys))
           | _ \<Rightarrow> Inl TypeError)
        else Inr state)"

definition currentIncidentReducer :: "jsval \<Rightarrow> jsobj \<Rightarrow> js_error + jsval" where
  "currentIncidentReducer state0 action =
    (let state = default_param JNull state0;
         ty = propv ''type'' action;
         payload = propv ''payload'' action
     in if ty = JStr SET_CURRENT_INCIDENT then Inr payload
        else if ty = JStr CLEAR_CURRENT_INCIDENT then Inr JNull
        else if ty = JStr UPDATE_INCIDENT then
          (if truthy state then
             bindE (get_prop ''id'' state) (\<lambda>sid.
             bindE (get_prop ''id'' payload) (\<lambda>pid.
               Inr (if strict_eq sid pid then JObj (spread2 state payload) else state)))
           else Inr state)
        else if ty = JStr DELETE_INCIDENT then
          (if truthy state then
             bindE (get_prop ''id'' state) (\<lambda>sid.
               Inr (if strict_eq sid payload then JNull else state))
           else Inr state)
        else Inr state)"

text \<open>The callbacks of the notifications reducer.\<close>

definition keep_notification :: "jsval \<Rightarrow> jsval \<Rightarrow> js_error + bool" where
  "keep_notification payload notification =
     bindE (get_prop ''id'' notification) (\<lambda>nid. Inr (\<not> strict_eq nid payload))"

definition mark_displayed :: "jsval \<Rightarrow> jsval \<Rightarrow> js_error + jsval" where
  "mark_displayed payload notification =
     bindE (get_prop ''id'' notification) (\<lambda>nid.
       Inr (if strict_eq nid payload
            then JObj (assign (assign [] (own_props notification)) [(''displayed'', JBool True)])
            else notification))"

definition notificationsReducer :: "jsval \<Rightarrow> jsobj \<Rightarrow> js_error + jsval" where
  "notificationsReducer state0 action =
    (let state = default_param (JArr []) state0;
         ty = propv ''type'' action;
         payload = propv ''payload'' action
     in if ty = JStr ADD_NOTIFICATION then
          bindE (iterate state) (\<lambda>xs. Inr (JArr (xs @ [payload])))
        else if ty = JStr REMOVE_NOTIFICATION then
          (case state of
             JArr xs \<Rightarrow> bindE (filterE (keep_notification payload) xs) (\<lambda>ys. Inr (JArr ys))
           | _ \<Rightarrow> Inl TypeError)
        else if ty = JStr MARK_NOTIFICATION_DISPLAYED then
          (case state of
             JArr xs \<Rightarrow> bindE (mapE (mark_displayed payload) xs) (\<lambda>ys. Inr (JArr ys))
           | _ \<Rightarrow> Inl TypeError)
        else Inr state)"

definition errorReducer :: "jsval \<Rightarrow> jsobj \<Rightarrow> js_error + jsval" where
  "errorReducer state0 action =
    (let state = default_param JNull state0;
         ty = propv ''type'' action;
         payload = propv ''payload'' action
     in if ty = JStr SET_ERROR then Inr payload
        else if ty = JStr CLEAR_ERROR then Inr JNull
        else Inr state)"

definition loadingReducer :: "jsval \<Rightarrow> jsobj \<Rightarrow> js_error + jsval" where
  "loadingReducer state0 action =
    (let state = default_param (JBool False) state0;
         ty = propv ''type'' action;
         payload = propv ''payload'' action
     in if ty = JStr SET_LOADING then Inr payload else Inr state)"

text \<open>
  The state tree of store.js: six slices with a reducer, and the action log, which has
  none and is only written by the store itself (always an array).
\<close>

record app_state =
  loading :: jsval
  incidents :: jsval
  currentIncident :: jsval
  notifications :: jsval
  error :: jsval
  ui :: jsval
  actionLog :: "jsval list"

text \<open>
  \<open>createReducer()\<close> is \<open>combineReducers\<close> of the six slice reducers, run in the order
  of the object literal; the first one that throws aborts the whole reduction. Keys
  without a reducer (\<open>_actionLog\<close>) are copied.
\<close>

definition rootReducer :: "app_state \<Rightarrow> jsobj \<Rightarrow> js_error + app_state" where
  "rootReducer st action =
     bindE (loadingReducer (loading st) action) (\<lambda>l.
     bindE (incidentsReducer (incidents st) action) (\<lambda>i.
     bindE (currentIncidentReducer (currentIncident st) action) (\<lambda>c.
     bindE (notificationsReducer (notifications st) action) (\<lambda>n.
     bindE (errorReducer (error st) action) (\<lambda>e.
     bindE (uiReducer (ui st) action) (\<lambda>u.
       Inr \<lparr> loading = l, incidents = i, currentIncident = c, notifications = n,
             error = e, ui = u, actionLog = actionLog st \<rparr>))))))"

text \<open>Successive dispatches reduce their actions one after the other; a reducer that
  throws leaves no next state.\<close>

fun reduceAll :: "app_state \<Rightarrow> jsobj list \<Rightarrow> js_error + app_state" where
  "reduceAll st [] = Inr st"
| "reduceAll st (a # as) = bindE (rootReducer st a) (\<lambda>st'. reduceAll st' as)"


section \<open>The store (store.js)\<close>

text \<open>\<open>initialState\<close>; the dark mode flag is read from local storage at start-up.\<close>

definition initialState :: "bool \<Rightarrow> app_state" where
  "initialState darkMode =
     \<lparr> loading = JBool False,
       incidents = JArr [],
       currentIncident = JNull,
       notifications = JArr [],
       error = JNull,
       ui = JObj [(''darkMode'', JBool darkMode), (''menuOpen'', JBool False),
                  (''filterStatus'', JStr ''all'')],
       actionLog = [] \<rparr>"

text \<open>
  A middleware is \<open>(store) => (action) => promise\<close>. What the store observes of one
  call is whether the call throws, or else how the returned promise settles (a value
  that is no promise counts as fulfilled for \<open>Promise.all\<close>). The model takes that
  outcome as a function of the state the middleware can read and of the action;
  middlewares that dispatch or subscribe while they are called are outside the model.
\<close>

datatype mw_outcome = MwThrows js_error | MwFulfilled | MwRejected | MwNeverSettles

type_synonym middleware = "app_state \<Rightarrow> jsobj \<Rightarrow> mw_outcome"

text \<open>
  The fields of class \<open>Store\<close>. A subscriber is a function; the model names it by a
  number, and \<open>subscribers\<close> is the JavaScript \<open>Set\<close> in insertion order.
\<close>

record store =
  state :: app_state
  subscribers :: "nat list"
  middlewares :: "middleware list"
  actionCounter :: nat

text \<open>
  What surrounds the store object: the callbacks registered with
  \<open>Promise.all(middlewarePromises).then(...)\<close> that have not run yet, each with the
  action it closes over and the outcomes of its middleware promises, and the record of
  every subscriber call (which subscriber, with which state) and of every middleware
  call (with which action), in order.
\<close>

record runtime =
  the_store :: store
  continuations :: "(jsobj \<times> mw_outcome list) list"
  notified :: "(nat \<times> app_state) list"
  mw_calls :: "jsobj list"

definition getState :: "runtime \<Rightarrow> app_state" where
  "getState rt = state (the_store rt)"

text \<open>The message of the error thrown for a malformed action:
  \<open>Las acciones deben ser objetos con una propiedad "type"\<close>.\<close>

definition action_error_message :: string where
  "action_error_message =
     ''Las acciones deben ser objetos con una propiedad '' @ [CHR 0x22] @ ''type'' @ [CHR 0x22]"

text \<open>\<open>this.middlewares.map((middleware) => middleware(this)(enhancedAction))\<close>: the
  calls are made in order, and the first one that throws aborts the loop. The result
  comes with the number of calls made.\<close>

fun call_middlewares ::
  "middleware list \<Rightarrow> app_state \<Rightarrow> jsobj \<Rightarrow> nat \<times> (js_error + mw_outcome list)" where
  "call_middlewares [] st a = (0, Inr [])"
| "call_middlewares (m # ms) st a =
     (case m st a of
        MwThrows e \<Rightarrow> (1, Inl e)
      | out \<Rightarrow> (case call_middlewares ms st a of
                  (k, Inl e) \<Rightarrow> (Suc k, Inl e)
                | (k, Inr outs) \<Rightarrow> (Suc k, Inr (out # outs))))"

text \<open>The object literal \<open>{ ...action, _id: ++this.actionCounter, _timestamp: Date.now() }\<close>,
  given the incremented counter and the clock reading.\<close>

definition enhance :: "nat \<Rightarrow> int \<Rightarrow> jsval \<Rightarrow> jsobj" where
  "enhance n now action =
     assign (assign [] (own_props action)) [(''_id'', JNum (int n)), (''_timestamp'', JNum now)]"

text \<open>
  \<open>dispatch(action)\<close> at clock reading \<open>now\<close>. It returns the enhanced action, or
  throws. The state update is not part of the call: it is left as a continuation.
\<close>

definition dispatch :: "int \<Rightarrow> jsval \<Rightarrow> runtime \<Rightarrow> (js_error + jsobj) \<times> runtime" where
  "dispatch now action rt =
     (if \<not> typeof_object action then (Inl (Error action_error_message), rt)
      else case get_prop ''type'' action of
        Inl e \<Rightarrow> (Inl e, rt)
      | Inr ty \<Rightarrow>
          if \<not> truthy ty then (Inl (Error action_error_message), rt)
          else
            let n = actionCounter (the_store rt) + 1;
                enhancedAction = enhance n now action;
                rt1 = rt\<lparr> the_store := (the_store rt)\<lparr> actionCounter := n \<rparr> \<rparr>;
                (k, res) = call_middlewares (middlewares (the_store rt1)) (getState rt1)
                             enhancedAction;
                rt2 = rt1\<lparr> mw_calls := mw_calls rt1 @ replicate k enhancedAction \<rparr>
            in case res of
                 Inl e \<Rightarrow> (Inl e, rt2)
               | Inr outs \<Rightarrow>
                   (Inr enhancedAction,
                    rt2\<lparr> continuations := continuations rt2 @ [(enhancedAction, outs)] \<rparr>))"

text \<open>\<open>notifySubscribers()\<close>: every subscriber is called with the current state; what a
  subscriber throws is caught and logged.\<close>

definition notifySubscribers :: "runtime \<Rightarrow> runtime" where
  "notifySubscribers rt =
     rt\<lparr> notified := notified rt @ map (\<lambda>s. (s, getState rt)) (subscribers (the_store rt)) \<rparr>"

text \<open>\<open>xs.slice(-19)\<close>: the last 19 elements.\<close>

definition slice_last19 :: "'a list \<Rightarrow> 'a list" where
  "slice_last19 xs = drop (length xs - 19) xs"

text \<open>
  The callback given to \<open>then\<close>, run with the state of that later moment. \<open>dev\<close>
  says whether \<open>process.env.NODE_ENV\<close> is \<open>"development"\<close>. A reducer that throws
  rejects the promise chain: no state is written and nobody is notified.
\<close>

definition process_action :: "bool \<Rightarrow> jsobj \<Rightarrow> runtime \<Rightarrow> runtime" where
  "process_action dev enhancedAction rt =
     (case rootReducer (getState rt) enhancedAction of
        Inl e \<Rightarrow> rt
      | Inr reduced \<Rightarrow>
          let nextState =
                (if dev then
                   reduced\<lparr> actionLog :=
                     slice_last19 (actionLog (getState rt)) @
                       [JObj [(''type'', propv ''type'' enhancedAction),
                              (''payload'', propv ''payload'' enhancedAction),
                              (''timestamp'', propv ''_timestamp'' enhancedAction)]] \<rparr>
                 else reduced)
          in notifySubscribers (rt\<lparr> the_store := (the_store rt)\<lparr> state := nextState \<rparr> \<rparr>))"

text \<open>
  One turn of the event loop for the \<open>i\<close>-th waiting continuation. \<open>Promise.all\<close>
  fulfils when every middleware promise has fulfilled, and then the callback runs; it
  rejects as soon as one rejects, and then the callback is dropped; while a promise
  never settles, and none rejects, the callback keeps waiting.
\<close>

definition run_continuation :: "bool \<Rightarrow> nat \<Rightarrow> runtime \<Rightarrow> runtime" where
  "run_continuation dev i rt =
     (if i < length (continuations rt) then
        (let (enhancedAction, outs) = continuations rt ! i;
             rest = take i (continuations rt) @ drop (Suc i) (continuations rt)
         in if MwRejected \<in> set outs then rt\<lparr> continuations := rest \<rparr>
            else if list_all (\<lambda>out. out = MwFulfilled) outs then
              process_action dev enhancedAction (rt\<lparr> continuations := rest \<rparr>)
            else rt)
      else rt)"

text \<open>\<open>applyMiddleware\<close>, \<open>subscribe\<close> (a \<open>Set\<close> keeps one copy), \<open>unsubscribe\<close> and
  \<open>reset\<close>.\<close>

definition applyMiddleware :: "middleware \<Rightarrow> runtime \<Rightarrow> runtime" where
  "applyMiddleware m rt =
     rt\<lparr> the_store := (the_store rt)\<lparr> middlewares := middlewares (the_store rt) @ [m] \<rparr> \<rparr>"

definition subscribe :: "nat \<Rightarrow> runtime \<Rightarrow> runtime" where
  "subscribe s rt =
     (if s \<in> set (subscribers (the_store rt)) then rt
      else rt\<lparr> the_store := (the_store rt)\<lparr> subscribers := subscribers (the_store rt) @ [s] \<rparr> \<rparr>)"

definition unsubscribe :: "nat \<Rightarrow> runtime \<Rightarrow> runtime" where
  "unsubscribe s rt =
     rt\<lparr> the_store := (the_store rt)\<lparr> subscribers := removeAll s (subscribers (the_store rt)) \<rparr> \<rparr>"

definition reset :: "bool \<Rightarrow> runtime \<Rightarrow> runtime" where
  "reset darkMode rt =
     notifySubscribers (rt\<lparr> the_store := (the_store rt)\<lparr> state := initialState darkMode \<rparr> \<rparr>)"

text \<open>\<open>new Store(reducer, initialState)\<close>, with nothing scheduled and nobody called yet.\<close>

definition new_store :: "bool \<Rightarrow> runtime" where
  "new_store darkMode =
     \<lparr> the_store = \<lparr> state = initialState darkMode, subscribers = [], middlewares = [],
                      actionCounter = 0 \<rparr>,
       continuations = [],
       notified = [],
       mw_calls = [] \<rparr>"

section \<open>The background executor (api.worker.js)\<close>

subsection \<open>The response cache\<close>

text \<open>\<open>apiCache\<close> is a JavaScript \<open>Map\<close> from the key \<open>METHOD:URL\<close> to
  \<open>{ timestamp, data }\<close>, kept here as the list of its entries in insertion order.\<close>

record cache_entry =
  timestamp :: int
  data :: jsval

type_synonym api_cache = "(string \<times> cache_entry) list"

definition cache_has :: "string \<Rightarrow> api_cache \<Rightarrow> bool" where
  "cache_has k c = (map_of c k \<noteq> None)"

definition cache_get :: "string \<Rightarrow> api_cache \<Rightarrow> cache_entry option" where
  "cache_get k c = map_of c k"

definition cache_set :: "string \<Rightarrow> cache_entry \<Rightarrow> api_cache \<Rightarrow> api_cache" where
  "cache_set k e c = AList.update k e c"

definition cache_delete :: "string \<Rightarrow> api_cache \<Rightarrow> api_cache" where
  "cache_delete k c = AList.delete k c"

definition cache_keys :: "api_cache \<Rightarrow> string list" where
  "cache_keys c = map fst c"

subsection \<open>Messages and the network\<close>

text \<open>
  The payload object of a message, as the functions destructure it: every field may be
  absent (\<open>None\<close>, or \<open>undefined\<close> for the fields the code inspects dynamically).
\<close>

record payload_fields =
  p_url :: "string option"
  p_method :: "string option"
  p_body :: jsval
  p_headers :: "jsobj option"
  p_useCache :: jsval
  p_cacheTTL :: "int option"
  p_pattern :: "string option"
  p_olderThan :: jsval

definition no_fields :: payload_fields where
  "no_fields =
     \<lparr> p_url = None, p_method = None, p_body = JUndefined, p_headers = None,
       p_useCache = JUndefined, p_cacheTTL = None, p_pattern = None,
       p_olderThan = JUndefined \<rparr>"

datatype payload_arg = ArgUndefined | ArgNull | ArgObject payload_fields

record message =
  msg_id :: jsval
  msg_action :: string
  msg_payload :: payload_arg

text \<open>What \<open>fetch\<close> and the reading of the body give: \<open>fetch\<close> throws with a message,
  or answers; \<open>response.json()\<close> can throw as well.\<close>

record http_response =
  resp_ok :: bool
  resp_status :: int
  resp_statusText :: string
  resp_headers :: jsobj
  resp_contentType :: "string option"
  resp_json :: "string + jsval"
  resp_text :: string

datatype fetch_outcome = FetchThrows string | FetchResponds http_response

text \<open>The executor's state: the cache, and the record of the \<open>fetch\<close> calls made
  (URL, method, body sent).\<close>

record executor =
  apiCache :: api_cache
  fetch_log :: "(string \<times> string \<times> jsval) list"

text \<open>\<open>s.startsWith(p)\<close> and \<open>s.includes(p)\<close>.\<close>

definition starts_with :: "string \<Rightarrow> string \<Rightarrow> bool" where
  "starts_with s p = (take (length p) s = p)"

fun str_includes :: "string \<Rightarrow> string \<Rightarrow> bool" where
  "str_includes [] p = (p = [])"
| "str_includes (c # cs) p = (starts_with (c # cs) p \<or> str_includes cs p)"

text \<open>A URL in a template string; an absent one prints as \<open>undefined\<close>.\<close>

definition url_text :: "string option \<Rightarrow> string" where
  "url_text u = (case u of None \<Rightarrow> ''undefined'' | Some s \<Rightarrow> s)"

definition cached_result :: "jsval \<Rightarrow> jsval" where
  "cached_result d = JObj [(''success'', JBool True), (''data'', d), (''fromCache'', JBool True)]"

definition network_error_result :: "string \<Rightarrow> jsval" where
  "network_error_result msg =
     JObj [(''success'', JBool False), (''error'', JStr msg), (''isNetworkError'', JBool True)]"

definition response_result :: "http_response \<Rightarrow> jsval \<Rightarrow> int \<Rightarrow> jsval" where
  "response_result r d t =
     JObj [(''success'', JBool (resp_ok r)), (''status'', JNum (resp_status r)),
           (''statusText'', JStr (resp_statusText r)), (''headers'', JObj (resp_headers r)),
           (''data'', d), (''responseTime'', JNum t)]"

subsection \<open>\<open>processRequest\<close>\<close>

text \<open>
  Reading the body: \<open>response.json()\<close> when the content type is present and includes
  \<open>application/json\<close>, \<open>response.text()\<close> otherwise.
\<close>

definition read_body :: "http_response \<Rightarrow> string + jsval" where
  "read_body response =
     (case resp_contentType response of
        None \<Rightarrow> Inr (JStr (resp_text response))
      | Some contentType \<Rightarrow>
          if contentType \<noteq> [] \<and> str_includes contentType ''application/json''
          then resp_json response
          else Inr (JStr (resp_text response)))"

text \<open>
  \<open>processRequest\<close> is an \<open>async\<close> function: it runs up to \<open>await fetch(url, options)\<close>,
  is suspended there, runs on to \<open>await response.json()\<close> (or \<open>text()\<close>) when the
  response has arrived, is suspended again, and runs to its end when the body has been
  read. While it is suspended the listener handles other messages and other requests
  resume, so the model has one function for each of the three runs. What stays alive
  across the suspensions is the frame of local variables that the later runs read.
\<close>

record request_frame =
  f_cacheKey :: string
  f_method :: string
  f_useCache :: jsval

text \<open>
  The first run, with \<open>Date.now()\<close> reading \<open>now\<close> at the cache check. It returns at
  once with the cached data (\<open>Inl\<close>), or deletes a stale entry, calls \<open>fetch\<close> (the
  call is recorded) and is suspended (\<open>Inr\<close>, with its frame).
\<close>

definition processRequest_start ::
  "int \<Rightarrow> payload_fields \<Rightarrow> executor \<Rightarrow> (jsval + request_frame) \<times> executor" where
  "processRequest_start now request ex =
     (let url = url_text (p_url request);
          method = (case p_method request of None \<Rightarrow> ''GET'' | Some m \<Rightarrow> m);
          body = default_param JNull (p_body request);
          useCache = default_param (JBool False) (p_useCache request);
          cacheTTL = (case p_cacheTTL request of None \<Rightarrow> 300000 | Some t \<Rightarrow> t);
          cacheKey = method @ '':'' @ url;
          frame = \<lparr> f_cacheKey = cacheKey, f_method = method, f_useCache = useCache \<rparr>;
          sent = (if truthy body \<and> method \<noteq> ''GET'' then body else JUndefined);
          call_fetch = (\<lambda>ex'. (Inr frame, ex'\<lparr> fetch_log := fetch_log ex' @ [(url, method, sent)] \<rparr>))
      in if method = ''GET'' \<and> truthy useCache \<and> cache_has cacheKey (apiCache ex) then
           (case cache_get cacheKey (apiCache ex) of
              None \<Rightarrow> call_fetch ex
            | Some cachedData \<Rightarrow>
                if now - timestamp cachedData < cacheTTL
                then (Inl (cached_result (data cachedData)), ex)
                else call_fetch (ex\<lparr> apiCache := cache_delete cacheKey (apiCache ex) \<rparr>))
         else call_fetch ex)"

text \<open>
  The second run, when \<open>fetch\<close> has settled, with the measured response time. A
  \<open>fetch\<close> that threw is caught and the function returns the network error (\<open>Inl\<close>);
  otherwise it starts reading the body and is suspended with the response (\<open>Inr\<close>).
  It touches neither the cache nor the log.
\<close>

definition processRequest_fetched :: "int \<Rightarrow> fetch_outcome \<Rightarrow> jsval + (http_response \<times> int)" where
  "processRequest_fetched responseTime outcome =
     (case outcome of
        FetchThrows msg \<Rightarrow> Inl (network_error_result msg)
      | FetchResponds response \<Rightarrow> Inr (response, responseTime))"

text \<open>
  The third run, when the body has been read, with \<open>Date.now()\<close> reading \<open>now\<close> at the
  cache write, on the executor as it is at that moment. A body that could not be read is
  caught and returned as a network error.
\<close>

definition processRequest_body ::
  "int \<Rightarrow> request_frame \<Rightarrow> http_response \<Rightarrow> int \<Rightarrow> executor \<Rightarrow> jsval \<times> executor" where
  "processRequest_body now frame response responseTime ex =
     (case read_body response of
        Inl msg \<Rightarrow> (network_error_result msg, ex)
      | Inr d \<Rightarrow>
          (response_result response d responseTime,
           if resp_ok response \<and> f_method frame = ''GET'' \<and> truthy (f_useCache frame)
           then ex\<lparr> apiCache :=
                  cache_set (f_cacheKey frame) \<lparr> timestamp = now, data = d \<rparr> (apiCache ex) \<rparr>
           else ex))"

subsection \<open>\<open>purgeCache\<close> and \<open>getCacheStats\<close>\<close>

text \<open>
  The loops \<open>for (const [key, value] of apiCache.entries()) if (test) { apiCache.delete(key);
  purgedKeys.push(key) }\<close>: the entries still to visit, the cache, and the keys pushed so
  far.
\<close>

fun purge_where ::
  "(string \<Rightarrow> cache_entry \<Rightarrow> bool) \<Rightarrow> api_cache \<Rightarrow> api_cache \<Rightarrow> string list \<Rightarrow> string list \<times> api_cache" where
  "purge_where test [] cache purgedKeys = (purgedKeys, cache)"
| "purge_where test ((key, value) # rest) cache purgedKeys =
     (if test key value
      then purge_where test rest (cache_delete key cache) (purgedKeys @ [key])
      else purge_where test rest cache purgedKeys)"

text \<open>
  \<open>purgeCache(options)\<close> with \<open>Date.now()\<close> reading \<open>now\<close>. \<open>regexp\<close> stands for
  \<open>new RegExp(pattern)\<close>: \<open>None\<close> when the pattern does not compile (a
  \<open>SyntaxError\<close>), otherwise the \<open>test\<close> function. The result is the list under
  \<open>purged\<close> and the cache left.
\<close>

definition purgeCache ::
  "(string \<Rightarrow> (string \<Rightarrow> bool) option) \<Rightarrow> int \<Rightarrow> payload_fields \<Rightarrow> api_cache
     \<Rightarrow> js_error + (string list \<times> api_cache)" where
  "purgeCache regexp now options cache =
     (case (case p_url options of None \<Rightarrow> None | Some u \<Rightarrow> if u = [] then None else Some u) of
        Some url \<Rightarrow>
          (let getKey = ''GET:'' @ url in Inr ([getKey], cache_delete getKey cache))
      | None \<Rightarrow>
        (case (case p_pattern options of None \<Rightarrow> None
                                        | Some p \<Rightarrow> if p = [] then None else Some p) of
           Some pattern \<Rightarrow>
             (case regexp pattern of
                None \<Rightarrow> Inl SyntaxError
              | Some regex_test \<Rightarrow> Inr (purge_where (\<lambda>key value. regex_test key) cache cache []))
         | None \<Rightarrow>
           (case p_olderThan options of
              JNum olderThan \<Rightarrow>
                if olderThan \<noteq> 0 then
                  (let threshold = now - olderThan
                   in Inr (purge_where (\<lambda>key value. timestamp value < threshold) cache cache []))
                else Inr (cache_keys cache, [])
            | _ \<Rightarrow> Inr (cache_keys cache, []))))"

definition purge_result :: "string list \<Rightarrow> jsval" where
  "purge_result keys = JObj [(''purged'', JArr (map JStr keys))]"

text \<open>\<open>getCacheStats()\<close>; \<open>json_length\<close> stands for \<open>JSON.stringify(item).length\<close>.\<close>

definition getCacheStats :: "(cache_entry \<Rightarrow> nat) \<Rightarrow> api_cache \<Rightarrow> jsval" where
  "getCacheStats json_length cache =
     JObj [(''size'', JNum (int (length cache))),
           (''keys'', JArr (map JStr (cache_keys cache))),
           (''totalSize'', JNum (int (fold (\<lambda>item total. total + json_length item)
                                              (map snd cache) 0)))]"

subsection \<open>The message listener\<close>

text \<open>The text before the action name in the error of the default case, in UTF-8
  (the fifth letter is an accented o).\<close>

definition unsupported_prefix :: string where
  "unsupported_prefix = ''Acci'' @ [CHR 0xC3, CHR 0xB3] @ ''n no soportada: ''"

definition envelope :: "jsval \<Rightarrow> jsval \<Rightarrow> jsval" where
  "envelope i result = JObj [(''id'', i), (''result'', result)]"

text \<open>
  What the listener has done when it stops running for a message: it has posted an
  envelope, or it has thrown before \<open>postMessage\<close>, or it is suspended inside
  \<open>await processRequest(payload)\<close> with the request's frame.
\<close>

datatype listener_outcome = Posts jsval | Throws js_error | Awaits request_frame

text \<open>
  The listener for one inbound message, with \<open>Date.now()\<close> reading \<open>now\<close>, up to the
  point where it posts, throws or is suspended. Destructuring an \<open>undefined\<close> or \<open>null\<close>
  payload throws; \<open>purgeCache\<close> has the default \<open>options = {}\<close> for \<open>undefined\<close>.
\<close>

definition on_message ::
  "int \<Rightarrow> (string \<Rightarrow> (string \<Rightarrow> bool) option) \<Rightarrow> (cache_entry \<Rightarrow> nat) \<Rightarrow> message
     \<Rightarrow> executor \<Rightarrow> listener_outcome \<times> executor" where
  "on_message now regexp json_length msg ex =
     (if msg_action msg = ''request'' then
        (case msg_payload msg of
           ArgObject request \<Rightarrow>
             (case processRequest_start now request ex of
                (Inl result, ex') \<Rightarrow> (Posts (envelope (msg_id msg) result), ex')
              | (Inr frame, ex') \<Rightarrow> (Awaits frame, ex'))
         | _ \<Rightarrow> (Throws TypeError, ex))
      else if msg_action msg = ''purgeCache'' then
        (case (case msg_payload msg of
                 ArgUndefined \<Rightarrow> Inr no_fields
               | ArgNull \<Rightarrow> Inl TypeError
               | ArgObject options \<Rightarrow> Inr options) of
           Inl e \<Rightarrow> (Throws e, ex)
         | Inr options \<Rightarrow>
             (case purgeCache regexp now options (apiCache ex) of
                Inl e \<Rightarrow> (Throws e, ex)
              | Inr (purged, cache') \<Rightarrow>
                  (Posts (envelope (msg_id msg) (purge_result purged)),
                   ex\<lparr> apiCache := cache' \<rparr>)))
      else if msg_action msg = ''getCacheStats'' then
        (Posts (envelope (msg_id msg) (getCacheStats json_length (apiCache ex))), ex)
      else
        (Posts (envelope (msg_id msg)
                  (JObj [(''success'', JBool False),
                         (''error'', JStr (unsupported_prefix @ msg_action msg))])),
         ex))"

text \<open>
  The listener resumed for a suspended request: when \<open>fetch\<close> has settled it posts the
  network error or stays suspended for the body, and when the body has been read it
  posts the result.
\<close>

definition on_fetch_settled ::
  "jsval \<Rightarrow> int \<Rightarrow> fetch_outcome \<Rightarrow> jsval + (http_response \<times> int)" where
  "on_fetch_settled i responseTime outcome =
     (case processRequest_fetched responseTime outcome of
        Inl result \<Rightarrow> Inl (envelope i result)
      | Inr waiting \<Rightarrow> Inr waiting)"

definition on_body_settled ::
  "jsval \<Rightarrow> int \<Rightarrow> request_frame \<Rightarrow> http_response \<Rightarrow> int \<Rightarrow> executor \<Rightarrow> jsval \<times> executor" where
  "on_body_settled i now frame response responseTime ex =
     (case processRequest_body now frame response responseTime ex of
        (result, ex') \<Rightarrow> (envelope i result, ex'))"

section \<open>The worker bridge (worker-bridge.js)\<close>

text \<open>\<open>generateMessageId()\<close> with \<open>Date.now()\<close> reading \<open>now\<close> and the counter before
  its increment: \<open>msg_<now>_<counter>\<close>.\<close>

definition generateMessageId :: "nat \<Rightarrow> nat \<Rightarrow> string" where
  "generateMessageId now counter = ''msg_'' @ show_nat now @ ''_'' @ show_nat counter"

text \<open>A call of a promise's \<open>resolve\<close> or \<open>reject\<close> callback.\<close>

datatype settlement = Resolved jsval | Rejected js_error

text \<open>
  The module state: the map \<open>workers\<close> from name to worker (a worker is named by the
  number of its creation), the map \<open>pendingCallbacks\<close> from message id to the
  \<open>{ resolve, reject }\<close> pair of a promise (promises are numbered in the order
  \<open>sendToWorker\<close> creates them), and \<open>messageIdCounter\<close>. Around it: the number of
  workers and promises created so far, the workers terminated, the messages posted
  (worker, id, action, payload), the timers set and not yet fired (message id, promise,
  worker name), and the record of every \<open>resolve\<close> and \<open>reject\<close> call, in order.
\<close>

record bridge =
  workers :: "(string \<times> nat) list"
  pendingCallbacks :: "(string \<times> nat) list"
  messageIdCounter :: nat
  spawned :: nat
  terminated :: "nat list"
  next_promise :: nat
  posted :: "(nat \<times> string \<times> string \<times> jsval) list"
  timers :: "(string \<times> nat \<times> string) list"
  settled :: "(nat \<times> settlement) list"

definition new_bridge :: bridge where
  "new_bridge =
     \<lparr> workers = [], pendingCallbacks = [], messageIdCounter = 0, spawned = 0,
       terminated = [], next_promise = 0, posted = [], timers = [], settled = [] \<rparr>"

text \<open>\<open>initWorker(name, workerPath)\<close>, up to the registration \<open>workers.set(name, worker)\<close>;
  \<open>spawn_ok\<close> says whether \<open>new Worker\<close> returned.\<close>

definition initWorker :: "string \<Rightarrow> bool \<Rightarrow> bridge \<Rightarrow> bridge" where
  "initWorker name spawn_ok b =
     (if spawn_ok
      then b\<lparr> workers := AList.update name (spawned b) (workers b), spawned := spawned b + 1 \<rparr>
      else b)"

text \<open>
  The \<open>message\<close> listener that \<open>initWorker\<close> attaches to a worker, for event data
  \<open>{ id, result, type }\<close>. The keys of \<open>pendingCallbacks\<close> are strings, so only a string
  \<open>id\<close> can be found there.
\<close>

definition on_worker_message :: "jsval \<Rightarrow> jsval \<Rightarrow> jsval \<Rightarrow> bridge \<Rightarrow> bridge" where
  "on_worker_message ty i result b =
     (if ty = JStr ''init'' then b
      else if \<not> truthy i then b
      else case i of
        JStr s \<Rightarrow>
          (case map_of (pendingCallbacks b) s of
             None \<Rightarrow> b
           | Some cb \<Rightarrow>
               b\<lparr> pendingCallbacks := AList.delete s (pendingCallbacks b),
                   settled := settled b @ [(cb, Resolved result)] \<rparr>)
      | _ \<Rightarrow> b)"

definition not_initialized_message :: "string \<Rightarrow> string" where
  "not_initialized_message workerName = ''Worker ['' @ workerName @ ''] no inicializado''"

definition timeout_message :: "string \<Rightarrow> string" where
  "timeout_message workerName =
     ''Timeout al esperar respuesta del worker ['' @ workerName @ '']''"

text \<open>\<open>sendToWorker(workerName, action, payload)\<close> with \<open>Date.now()\<close> reading \<open>now\<close>:
  the promise it returns, and the bridge after the executor function has run.\<close>

definition sendToWorker :: "string \<Rightarrow> string \<Rightarrow> jsval \<Rightarrow> nat \<Rightarrow> bridge \<Rightarrow> nat \<times> bridge" where
  "sendToWorker workerName action payload now b =
     (let promise = next_promise b;
          b0 = b\<lparr> next_promise := promise + 1 \<rparr>
      in case map_of (workers b0) workerName of
           None \<Rightarrow>
             (promise,
              b0\<lparr> settled := settled b0 @
                     [(promise, Rejected (Error (not_initialized_message workerName)))] \<rparr>)
         | Some worker \<Rightarrow>
             (let messageId = generateMessageId now (messageIdCounter b0)
              in (promise,
                  b0\<lparr> messageIdCounter := messageIdCounter b0 + 1,
                      pendingCallbacks := AList.update messageId promise (pendingCallbacks b0),
                      posted := posted b0 @ [(worker, messageId, action, payload)],
                      timers := timers b0 @ [(messageId, promise, workerName)] \<rparr>)))"

text \<open>The callback of \<open>setTimeout\<close>, for the \<open>i\<close>-th timer still set: it fires once, 30
  seconds after the send.\<close>

definition timer_fires :: "nat \<Rightarrow> bridge \<Rightarrow> bridge" where
  "timer_fires i b =
     (if i < length (timers b) then
        (let (messageId, promise, workerName) = timers b ! i;
             b0 = b\<lparr> timers := take i (timers b) @ drop (Suc i) (timers b) \<rparr>
         in if map_of (pendingCallbacks b0) messageId \<noteq> None then
              b0\<lparr> pendingCallbacks := AList.delete messageId (pendingCallbacks b0),
                  settled := settled b0 @
                    [(promise, Rejected (Error (timeout_message workerName)))] \<rparr>
            else b0)
      else b)"

text \<open>The loop of \<open>terminateWorker\<close> over \<open>pendingCallbacks.entries()\<close>:
  \<open>if (id.startsWith(`${name}_`)) pendingCallbacks.delete(id)\<close>.\<close>

fun clean_callbacks :: "string \<Rightarrow> (string \<times> nat) list \<Rightarrow> (string \<times> nat) list \<Rightarrow> (string \<times> nat) list" where
  "clean_callbacks name [] pending = pending"
| "clean_callbacks name ((i, cb) # rest) pending =
     (if starts_with i (name @ ''_'')
      then clean_callbacks name rest (AList.delete i pending)
      else clean_callbacks name rest pending)"

definition terminateWorker :: "string \<Rightarrow> bridge \<Rightarrow> bridge" where
  "terminateWorker name b =
     (case map_of (workers b) name of
        None \<Rightarrow> b
      | Some worker \<Rightarrow>
          b\<lparr> terminated := terminated b @ [worker],
              workers := AList.delete name (workers b),
              pendingCallbacks :=
                clean_callbacks name (pendingCallbacks b) (pendingCallbacks b) \<rparr>)"

text \<open>\<open>terminateAllWorkers()\<close>: every registered name in turn, then
  \<open>pendingCallbacks.clear()\<close>.\<close>

definition terminateAllWorkers :: "bridge \<Rightarrow> bridge" where
  "terminateAllWorkers b =
     (fold terminateWorker (map fst (workers b)) b)\<lparr> pendingCallbacks := [] \<rparr>"

text \<open>What can happen to the bridge, one event at a time, in any order.\<close>

datatype bridge_event =
    Init string bool
  | Send string string jsval nat
  | Inbound jsval jsval jsval
  | TimerFires nat
  | Terminate string
  | TerminateAll

fun bridge_step :: "bridge \<Rightarrow> bridge_event \<Rightarrow> bridge" where
  "bridge_step b (Init name spawn_ok) = initWorker name spawn_ok b"
| "bridge_step b (Send workerName action payload now) =
     snd (sendToWorker workerName action payload now b)"
| "bridge_step b (Inbound ty i result) = on_worker_message ty i result b"
| "bridge_step b (TimerFires i) = timer_fires i b"
| "bridge_step b (Terminate name) = terminateWorker name b"
| "bridge_step b TerminateAll = terminateAllWorkers b"

definition bridge_run :: "bridge_event list \<Rightarrow> bridge \<Rightarrow> bridge" where
  "bridge_run events b = foldl bridge_step b events"

subsection \<open>The invariant of the bridge\<close>

text \<open>\<open>generated s n\<close>: the string \<open>s\<close> is a message id made with a counter below
  \<open>n\<close>.\<close>

definition generated :: "string \<Rightarrow> nat \<Rightarrow> bool" where
  "generated s n = (\<exists>now c. c < n \<and> s = generateMessageId now c)"

text \<open>
  What every bridge reached from \<open>new_bridge\<close> satisfies: the pending ids were generated
  and are pairwise different, no promise waits under two ids, no promise was settled
  twice, no settled promise is still pending, the posted ids were generated and are
  pairwise different, and a timer whose id is still pending belongs to the promise
  pending under that id.
\<close>

definition bridge_inv :: "bridge \<Rightarrow> bool" where
  "bridge_inv b =
     ((\<forall>e\<in>set (pendingCallbacks b).
          generated (fst e) (messageIdCounter b) \<and> snd e < next_promise b)
      \<and> distinct (map fst (pendingCallbacks b))
      \<and> distinct (map snd (pendingCallbacks b))
      \<and> distinct (map fst (settled b))
      \<and> (\<forall>e\<in>set (settled b).
            fst e < next_promise b \<and> fst e \<notin> snd ` set (pendingCallbacks b))
      \<and> (\<forall>m\<in>set (posted b). generated (fst (snd m)) (messageIdCounter b))
      \<and> distinct (map (\<lambda>m. fst (snd m)) (posted b))
      \<and> (\<forall>t\<in>set (timers b).
            generated (fst t) (messageIdCounter b) \<and>
            (\<forall>p'. (fst t, p') \<in> set (pendingCallbacks b) \<longrightarrow> p' = fst (snd t))))"

section \<open>The API service (api.service.js)\<close>

definition API_BASE_URL :: string where
  "API_BASE_URL = ''http://localhost:3000''"

text \<open>\<open>apiUrl(path)\<close> of config.js.\<close>

definition apiUrl :: "string \<Rightarrow> string" where
  "apiUrl path = API_BASE_URL @ (if starts_with path ''/'' then path else ''/'' @ path)"

text \<open>
  The service object has the set \<open>pendingRequests\<close> (in insertion order). Around it, the
  model records the actions the service passes to \<open>store.dispatch\<close> and the payloads it
  passes to \<open>sendToWorker('api', 'request', ...)\<close>, in order.
\<close>

record api_service =
  pendingRequests :: "string list"
  dispatched :: "jsval list"
  worker_requests :: "payload_fields list"

definition new_api_service :: api_service where
  "new_api_service = \<lparr> pendingRequests = [], dispatched = [], worker_requests = [] \<rparr>"

text \<open>\<open>a || b\<close>.\<close>

definition or_else :: "jsval \<Rightarrow> jsval \<Rightarrow> jsval" where
  "or_else a b = (if truthy a then a else b)"

text \<open>The three fallback messages, in UTF-8: \<open>Error de comunicacion con el servidor\<close>,
  \<open>Error en la peticion\<close> and \<open>Error de conexion\<close>, each with an accented o.\<close>

definition server_error_message :: string where
  "server_error_message = ''Error de comunicaci'' @ [CHR 0xC3, CHR 0xB3] @ ''n con el servidor''"

definition request_error_message :: string where
  "request_error_message = ''Error en la petici'' @ [CHR 0xC3, CHR 0xB3] @ ''n''"

definition connection_error_message :: string where
  "connection_error_message = ''Error de conexi'' @ [CHR 0xC3, CHR 0xB3] @ ''n''"

text \<open>\<open>_handleError(error)\<close> up to its \<open>throw error\<close>: the dispatch of \<open>setError\<close>, with
  \<open>Date.now()\<close> reading \<open>now\<close>. The caller models the throw.\<close>

definition handleError :: "int \<Rightarrow> jsobj \<Rightarrow> api_service \<Rightarrow> api_service" where
  "handleError now err svc =
     svc\<lparr> dispatched := dispatched svc @
            [setError (JObj [(''message'', or_else (propv ''message'' err) (JStr server_error_message)),
                             (''code'', or_else (propv ''status'' err) (JStr ''NETWORK_ERROR'')),
                             (''timestamp'', JNum now)])] \<rparr>"

text \<open>The options of \<open>request\<close> after destructuring: \<open>useCache\<close> and \<open>showLoader\<close>
  default to \<open>true\<close>.\<close>

record request_options =
  o_body :: jsval
  o_params :: "(string \<times> jsval) list option"
  o_useCache :: jsval
  o_showLoader :: jsval

text \<open>
  The URL of a request. \<open>encode\<close> stands for \<open>URLSearchParams.toString()\<close> on the
  parameters kept (those neither \<open>undefined\<close> nor \<open>null\<close>).
\<close>

definition build_url :: "((string \<times> jsval) list \<Rightarrow> string) \<Rightarrow> string \<Rightarrow> request_options \<Rightarrow> string" where
  "build_url encode endpoint options =
     (let url = apiUrl endpoint
      in case o_params options of
           None \<Rightarrow> url
         | Some params \<Rightarrow>
             (let queryString = encode (filter (\<lambda>(key, v). v \<noteq> JUndefined \<and> v \<noteq> JNull) params)
              in if queryString \<noteq> []
                 then url @ (if str_includes url ''?'' then ''&'' else ''?'') @ queryString
                 else url))"

definition request_id :: "string \<Rightarrow> string \<Rightarrow> nat \<Rightarrow> string" where
  "request_id method url now = method @ '':'' @ url @ '':'' @ show_nat now"

text \<open>
  \<open>request(method, endpoint, options)\<close> up to its \<open>await sendToWorker(...)\<close>, with
  \<open>Date.now()\<close> reading \<open>now\<close>: the request id is added to the set, \<open>setLoading(true)\<close>
  is dispatched if the loader is wanted, and the request is handed to the bridge.
\<close>

definition request_start ::
  "((string \<times> jsval) list \<Rightarrow> string) \<Rightarrow> nat \<Rightarrow> string \<Rightarrow> string \<Rightarrow> request_options
     \<Rightarrow> api_service \<Rightarrow> string \<times> api_service" where
  "request_start encode now method endpoint options svc =
     (let useCache = default_param (JBool True) (o_useCache options);
          showLoader = default_param (JBool True) (o_showLoader options);
          url = build_url encode endpoint options;
          requestId = request_id method url now;
          svc1 = svc\<lparr> pendingRequests :=
                   (if requestId \<in> set (pendingRequests svc) then pendingRequests svc
                    else pendingRequests svc @ [requestId]) \<rparr>;
          svc2 = (if truthy showLoader
                  then svc1\<lparr> dispatched := dispatched svc1 @ [setLoading (JBool True)] \<rparr>
                  else svc1)
      in (requestId,
          svc2\<lparr> worker_requests := worker_requests svc2 @
                 [\<lparr> p_url = Some url, p_method = Some method, p_body = o_body options,
                    p_headers = None,
                    p_useCache = (if truthy useCache then JBool (method = ''GET'') else useCache),
                    p_cacheTTL = Some 300000, p_pattern = None, p_olderThan = JUndefined \<rparr>] \<rparr>))"

text \<open>How the awaited promise settles: resolved with the worker's result, or rejected
  with an \<open>Error\<close> carrying a message (worker not initialised, timeout).\<close>

datatype worker_outcome = WorkerResolved jsval | WorkerRejected string

text \<open>\<open>response.data?.error\<close>.\<close>

definition data_error :: "jsval \<Rightarrow> jsval" where
  "data_error d =
     (if d = JUndefined \<or> d = JNull then JUndefined
      else case get_prop ''error'' d of Inl e \<Rightarrow> JUndefined | Inr v \<Rightarrow> v)"

text \<open>The \<open>catch\<close> block of \<open>request\<close>, for a caught value whose \<open>message\<close> is \<open>msg\<close>:
  it calls \<open>_handleError\<close>, which throws the object it was given.\<close>

definition request_catch :: "int \<Rightarrow> jsval \<Rightarrow> api_service \<Rightarrow> (jsval + jsval) \<times> api_service" where
  "request_catch now msg svc =
     (let err = [(''message'', or_else msg (JStr connection_error_message)),
                 (''status'', JStr ''NETWORK_ERROR'')]
      in (Inl (JObj err), handleError now err svc))"

text \<open>
  \<open>request\<close> from the settlement of the awaited promise on, for the request id and
  loader flag of its first part; \<open>now\<close> and \<open>now'\<close> are the clock readings of the
  first and the second \<open>_handleError\<close>. The result is the value returned (\<open>Inr\<close>) or
  thrown (\<open>Inl\<close>). \<open>type_error_message\<close> stands for the message of the
  \<open>TypeError\<close> raised by reading \<open>success\<close> of \<open>null\<close> or \<open>undefined\<close>.
\<close>

definition request_finish ::
  "string \<Rightarrow> int \<Rightarrow> int \<Rightarrow> string \<Rightarrow> jsval \<Rightarrow> worker_outcome \<Rightarrow> api_service
     \<Rightarrow> (jsval + jsval) \<times> api_service" where
  "request_finish type_error_message now now' requestId showLoader outcome svc =
     (case outcome of
        WorkerRejected msg \<Rightarrow> request_catch now (JStr msg) svc
      | WorkerResolved response \<Rightarrow>
          (let svc1 = svc\<lparr> pendingRequests := removeAll requestId (pendingRequests svc) \<rparr>;
               svc2 = (if truthy showLoader \<and> length (pendingRequests svc1) = 0
                       then svc1\<lparr> dispatched := dispatched svc1 @ [setLoading (JBool False)] \<rparr>
                       else svc1)
           in case get_prop ''success'' response of
                Inl e \<Rightarrow> request_catch now (JStr type_error_message) svc2
              | Inr success \<Rightarrow>
                  if \<not> truthy success then
                    (let d = (case get_prop ''data'' response of Inl e \<Rightarrow> JUndefined | Inr v \<Rightarrow> v);
                         err = [(''message'', or_else (data_error d) (JStr request_error_message)),
                                (''status'',
                                 (case get_prop ''status'' response of
                                    Inl e \<Rightarrow> JUndefined | Inr v \<Rightarrow> v)),
                                (''data'', d)]
                     in request_catch now' (propv ''message'' err) (handleError now err svc2))
                  else
                    (Inr (case get_prop ''data'' response of Inl e \<Rightarrow> JUndefined | Inr v \<Rightarrow> v),
                     svc2)))"

text \<open>\<open>abortPendingRequests()\<close>.\<close>

definition abortPendingRequests :: "api_service \<Rightarrow> api_service" where
  "abortPendingRequests svc = svc\<lparr> pendingRequests := [] \<rparr>"
section \<open>Properties of the reducers\<close>

subsection \<open>Objects as property lists\<close>

lemma alist_ext:
  "distinct (map fst xs) \<Longrightarrow> map fst xs = map fst ys \<Longrightarrow> map_of xs = map_of ys \<Longrightarrow> xs = ys"
proof (induction xs arbitrary: ys)
  case Nil
  then show ?case by simp
next
  case (Cons x xs)
  then obtain y ys' where ys: "ys = y # ys'" by (cases ys) auto
  from Cons.prems ys have k: "fst x = fst y" and ks: "map fst xs = map fst ys'" by auto
  from Cons.prems(3)[unfolded ys] have "map_of (x # xs) (fst x) = map_of (y # ys') (fst x)"
    by (rule fun_cong)
  with k have "snd x = snd y" by simp
  with k have xy: "x = y" by (simp add: prod_eq_iff)
  have d: "distinct (map fst xs)" and nin: "fst x \<notin> set (map fst xs)" using Cons.prems(1) by auto
  have "map_of xs = map_of ys'"
  proof
    fix k
    show "map_of xs k = map_of ys' k"
    proof (cases "k = fst x")
      case True
      then have "map_of xs k = None" using nin by (simp add: map_of_eq_None_iff)
      moreover have "map_of ys' k = None" using nin ks True
        by (metis map_of_eq_None_iff set_map)
      ultimately show ?thesis by simp
    next
      case False
      from Cons.prems(3)[unfolded ys xy[symmetric]] have "map_of (x # xs) k = map_of (x # ys') k"
        by (rule fun_cong)
      with False show ?thesis by simp
    qed
  qed
  with Cons.IH[OF d ks] xy ys show ?case by simp
qed

lemma assign_Cons: "assign ps ((k, v) # qs) = assign (AList.update k v ps) qs"
  by (simp add: assign_def)

lemma assign_Nil: "assign ps [] = ps"
  by (simp add: assign_def)

lemma distinct_assign: "distinct (map fst ps) \<Longrightarrow> distinct (map fst (assign ps qs))"
proof (induction qs arbitrary: ps)
  case Nil
  then show ?case by (simp add: assign_Nil)
next
  case (Cons q qs)
  obtain k v where q: "q = (k, v)" by (cases q)
  have "distinct (map fst (AList.update k v ps))" using Cons.prems by (simp add: distinct_update)
  from Cons.IH[OF this] q show ?case by (simp add: assign_Cons)
qed

lemma dom_assign: "fst ` set (assign ps qs) = fst ` set ps \<union> fst ` set qs"
proof (induction qs arbitrary: ps)
  case Nil
  then show ?case by (simp add: assign_Nil)
next
  case (Cons q qs)
  obtain k v where q: "q = (k, v)" by (cases q)
  show ?case unfolding q assign_Cons Cons.IH dom_update by auto
qed

lemma keys_assign_subset:
  "fst ` set qs \<subseteq> fst ` set ps \<Longrightarrow> map fst (assign ps qs) = map fst ps"
proof (induction qs arbitrary: ps)
  case Nil
  then show ?case by (simp add: assign_Nil)
next
  case (Cons q qs)
  obtain k v where q: "q = (k, v)" by (cases q)
  have kin: "k \<in> fst ` set ps" using Cons.prems q by auto
  then have keys: "map fst (AList.update k v ps) = map fst ps" by (simp add: update_keys)
  have "fst ` set qs \<subseteq> fst ` set (AList.update k v ps)"
    using Cons.prems unfolding dom_update by auto
  from Cons.IH[OF this] keys q show ?case by (simp add: assign_Cons)
qed

lemma map_of_assign: "map_of (assign ps qs) = map_of ps ++ map_of (rev qs)"
proof (induction qs arbitrary: ps)
  case Nil
  then show ?case by (simp add: assign_Nil)
next
  case (Cons q qs)
  obtain k v where q: "q = (k, v)" by (cases q)
  have "map_of (rev qs @ [(k, v)]) = [k \<mapsto> v] ++ map_of (rev qs)"
    by (simp add: map_of_append)
  moreover have "(map_of ps)(k \<mapsto> v) = map_of ps ++ [k \<mapsto> v]" by simp
  ultimately show ?case
    unfolding q assign_Cons Cons.IH update_conv' by (simp del: map_add_upd)
qed

lemma assign_idem:
  assumes "distinct (map fst ps)"
  shows "assign (assign ps qs) qs = assign ps qs"
proof (rule alist_ext)
  show "distinct (map fst (assign (assign ps qs) qs))"
    by (intro distinct_assign assms)
  show "map fst (assign (assign ps qs) qs) = map fst (assign ps qs)"
    by (rule keys_assign_subset) (simp add: dom_assign)
  have "(map_of ps ++ map_of (rev qs)) ++ map_of (rev qs) = map_of ps ++ map_of (rev qs)"
    by (rule ext) (simp add: map_add_def split: option.split)
  then show "map_of (assign (assign ps qs) qs) = map_of (assign ps qs)"
    by (simp only: map_of_assign)
qed

lemma assign_snoc: "assign ps (qs @ [(k, v)]) = AList.update k v (assign ps qs)"
  by (simp add: assign_def)

lemma update_fresh: "k \<notin> fst ` set ps \<Longrightarrow> AList.update k v ps = ps @ [(k, v)]"
  by (induction ps) auto

lemma assign_empty_id:
  "distinct (map fst ps) \<Longrightarrow> assign [] ps = ps"
proof (induction ps rule: rev_induct)
  case Nil
  then show ?case by (simp add: assign_Nil)
next
  case (snoc q qs)
  obtain k v where q: "q = (k, v)" by (cases q)
  from snoc.prems q have d: "distinct (map fst qs)" and nin: "k \<notin> fst ` set qs" by auto
  from snoc.IH[OF d] nin show ?case by (simp add: q assign_snoc update_fresh)
qed

lemma spread2_fixed: "spread2 (JObj (spread2 a b)) b = spread2 a b"
proof -
  have d: "distinct (map fst (assign [] (own_props a)))" by (rule distinct_assign) simp
  then have d2: "distinct (map fst (spread2 a b))" unfolding spread2_def by (rule distinct_assign)
  show ?thesis
    using assign_empty_id[OF d2] assign_idem[OF d, of "own_props b"]
    by (simp add: spread2_def)
qed

lemma update_one_idem: "update_one payload x = Inr y \<Longrightarrow> update_one payload y = Inr y"
  by (auto simp: update_one_def bindE_def spread2_fixed split: sum.splits if_splits)

lemma mapE_length: "mapE f xs = Inr ys \<Longrightarrow> length ys = length xs"
  by (induction xs arbitrary: ys) (auto split: sum.splits)

lemma mapE_nth: "mapE f xs = Inr ys \<Longrightarrow> i < length xs \<Longrightarrow> f (xs ! i) = Inr (ys ! i)"
proof (induction xs arbitrary: ys i)
  case Nil
  then show ?case by simp
next
  case (Cons x xs)
  then show ?case by (cases i) (auto split: sum.splits)
qed

lemma mapE_idem:
  assumes "\<And>x y. f x = Inr y \<Longrightarrow> f y = Inr y"
  shows "mapE f xs = Inr ys \<Longrightarrow> mapE f ys = Inr ys"
proof (induction xs arbitrary: ys)
  case Nil
  then show ?case by simp
next
  case (Cons x xs)
  then show ?case using assms by (auto split: sum.splits)
qed


lemmas action_type_defs =
  SET_LOADING_def SET_DARK_MODE_def TOGGLE_MENU_def SET_FILTER_STATUS_def
  LOAD_INCIDENTS_def SET_INCIDENTS_def ADD_INCIDENT_def UPDATE_INCIDENT_def
  DELETE_INCIDENT_def SET_CURRENT_INCIDENT_def CLEAR_CURRENT_INCIDENT_def
  ADD_NOTIFICATION_def REMOVE_NOTIFICATION_def MARK_NOTIFICATION_DISPLAYED_def
  SET_ERROR_def CLEAR_ERROR_def

lemmas reducer_defs =
  rootReducer_def loadingReducer_def incidentsReducer_def currentIncidentReducer_def
  notificationsReducer_def errorReducer_def uiReducer_def default_param_def bindE_def
  propv_def assign_def Let_def action_type_defs

lemma incidentsReducer_update:
  assumes "propv ''type'' action = JStr UPDATE_INCIDENT"
  shows "incidentsReducer s action =
     (case default_param (JArr []) s of
        JArr xs \<Rightarrow> bindE (mapE (update_one (propv ''payload'' action)) xs) (\<lambda>ys. Inr (JArr ys))
      | _ \<Rightarrow> Inl TypeError)"
  using assms by (simp add: incidentsReducer_def Let_def action_type_defs)

lemma incidentsReducer_update_arr:
  assumes "propv ''type'' action = JStr UPDATE_INCIDENT"
      and "incidentsReducer s action = Inr s1"
  obtains xs ys where "default_param (JArr []) s = JArr xs" and "s1 = JArr ys"
      and "mapE (update_one (propv ''payload'' action)) xs = Inr ys"
  using assms
  by (auto simp: incidentsReducer_update bindE_def split: jsval.splits sum.splits)

lemma incidents_update_idem:
  assumes ty: "propv ''type'' action = JStr UPDATE_INCIDENT"
      and r: "incidentsReducer s action = Inr s1"
  shows "incidentsReducer s1 action = Inr s1"
proof -
  from ty r obtain xs ys where s1: "s1 = JArr ys"
      and m: "mapE (update_one (propv ''payload'' action)) xs = Inr ys"
    by (rule incidentsReducer_update_arr)
  have "mapE (update_one (propv ''payload'' action)) ys = Inr ys"
    using m by (rule mapE_idem[rotated]) (rule update_one_idem)
  then show ?thesis
    by (simp add: incidentsReducer_update[OF ty] s1 default_param_def bindE_def)
qed

lemma currentIncidentReducer_update:
  assumes "propv ''type'' action = JStr UPDATE_INCIDENT"
  shows "currentIncidentReducer c action =
    (let state = default_param JNull c; payload = propv ''payload'' action in
     if truthy state then
       bindE (get_prop ''id'' state) (\<lambda>sid.
       bindE (get_prop ''id'' payload) (\<lambda>pid.
         Inr (if strict_eq sid pid then JObj (spread2 state payload) else state)))
     else Inr state)"
  using assms by (simp add: currentIncidentReducer_def Let_def action_type_defs)

lemma default_param_idem: "default_param d (default_param d v) = default_param d v"
  by (simp add: default_param_def)

lemma current_update_idem:
  assumes ty: "propv ''type'' action = JStr UPDATE_INCIDENT"
      and r: "currentIncidentReducer c action = Inr c1"
  shows "currentIncidentReducer c1 action = Inr c1"
proof (cases "truthy (default_param JNull c)")
  case False
  with r ty have c1: "c1 = default_param JNull c"
    by (simp add: currentIncidentReducer_update Let_def)
  with False show ?thesis
    by (simp add: currentIncidentReducer_update[OF ty] Let_def default_param_idem)
next
  case True
  then have dc: "default_param JNull c = c" by (auto simp: default_param_def)
  from r ty True dc obtain sid pid where
      pid: "get_prop ''id'' (propv ''payload'' action) = Inr pid"
      and c1: "c1 = (if strict_eq sid pid then JObj (spread2 c (propv ''payload'' action)) else c)"
    by (auto simp: currentIncidentReducer_update Let_def bindE_def split: sum.splits)
  show ?thesis
  proof (cases "strict_eq sid pid")
    case False
    with c1 r show ?thesis by simp
  next
    case True
    with c1 have c1': "c1 = JObj (spread2 c (propv ''payload'' action))" by simp
    show ?thesis
      by (simp add: currentIncidentReducer_update[OF ty] Let_def c1' default_param_def
            bindE_def pid spread2_fixed)
  qed
qed

lemma update_one_other:
  assumes "update_one payload x = Inr y"
      and "get_prop ''id'' x = Inr iid" and "get_prop ''id'' payload = Inr pid"
      and "\<not> strict_eq iid pid"
  shows "y = x"
  using assms by (simp add: update_one_def bindE_def)

lemma update_one_match:
  assumes "update_one payload x = Inr y"
      and "get_prop ''id'' x = Inr iid" and "get_prop ''id'' payload = Inr pid"
      and "strict_eq iid pid"
  shows "y = JObj (spread2 x payload)"
  using assms by (simp add: update_one_def bindE_def)

lemma get_prop_total: "v \<noteq> JUndefined \<Longrightarrow> v \<noteq> JNull \<Longrightarrow> \<exists>w. get_prop k v = Inr w"
  by (cases v) auto

lemma mapE_total:
  "(\<And>x. x \<in> set xs \<Longrightarrow> \<exists>y. f x = Inr y) \<Longrightarrow> \<exists>ys. mapE f xs = Inr ys"
proof (induction xs)
  case Nil
  then show ?case by simp
next
  case (Cons x xs)
  then obtain y where "f x = Inr y" by auto
  moreover from Cons obtain ys where "mapE f xs = Inr ys" by auto
  ultimately show ?case by simp
qed

lemma incidents_update_total:
  assumes ty: "propv ''type'' action = JStr UPDATE_INCIDENT"
      and p: "propv ''payload'' action \<noteq> JUndefined" "propv ''payload'' action \<noteq> JNull"
      and xs: "\<forall>x\<in>set xs. x \<noteq> JUndefined \<and> x \<noteq> JNull"
  shows "\<exists>ys. incidentsReducer (JArr xs) action = Inr (JArr ys)"
proof -
  from get_prop_total[OF p] obtain pid where pid: "get_prop ''id'' (propv ''payload'' action) = Inr pid"
    by blast
  have "\<exists>ys. mapE (update_one (propv ''payload'' action)) xs = Inr ys"
  proof (rule mapE_total)
    fix x assume "x \<in> set xs"
    with xs obtain iid where "get_prop ''id'' x = Inr iid" using get_prop_total by blast
    with pid show "\<exists>y. update_one (propv ''payload'' action) x = Inr y"
      by (simp add: update_one_def bindE_def)
  qed
  then show ?thesis
    by (auto simp: incidentsReducer_update[OF ty] default_param_def bindE_def)
qed

text \<open>
  Claim C8. Reducing the same \<open>updateIncident\<close> action a second time changes nothing:
  whenever the incidents reducer returns a slice, reducing that slice again with the
  same action returns it unchanged, and so does the reducer of the current incident.
  In the result of the first reduction every element whose \<open>id\<close> differs from the
  payload's is the element itself, every element whose \<open>id\<close> matches is
  \<open>{...incident, ...payload}\<close>, and the length is kept. The reducer does return a
  slice when neither the payload nor any element is \<open>null\<close> or \<open>undefined\<close>.
\<close>

theorem updateIncident_idempotent:
  assumes ty: "propv ''type'' action = JStr UPDATE_INCIDENT"
  shows "(incidentsReducer s action = Inr s1 \<longrightarrow> incidentsReducer s1 action = Inr s1)
       \<and> (currentIncidentReducer c action = Inr c1 \<longrightarrow> currentIncidentReducer c1 action = Inr c1)
       \<and> (incidentsReducer (JArr xs) action = Inr s1 \<longrightarrow>
            (\<exists>ys. s1 = JArr ys \<and> length ys = length xs \<and>
               (\<forall>i<length xs. \<forall>iid pid.
                   get_prop ''id'' (xs ! i) = Inr iid \<longrightarrow>
                   get_prop ''id'' (propv ''payload'' action) = Inr pid \<longrightarrow>
                   ys ! i = (if strict_eq iid pid
                             then JObj (spread2 (xs ! i) (propv ''payload'' action))
                             else xs ! i))))
       \<and> ((\<forall>x\<in>set xs. x \<noteq> JUndefined \<and> x \<noteq> JNull) \<and>
           propv ''payload'' action \<noteq> JUndefined \<and> propv ''payload'' action \<noteq> JNull \<longrightarrow>
            (\<exists>ys. incidentsReducer (JArr xs) action = Inr (JArr ys)))"
proof (intro conjI impI)
  assume "incidentsReducer s action = Inr s1"
  with ty show "incidentsReducer s1 action = Inr s1" by (rule incidents_update_idem)
next
  assume "currentIncidentReducer c action = Inr c1"
  with ty show "currentIncidentReducer c1 action = Inr c1" by (rule current_update_idem)
next
  assume r: "incidentsReducer (JArr xs) action = Inr s1"
  from ty r obtain xs' ys where d: "default_param (JArr []) (JArr xs) = JArr xs'"
      and s1: "s1 = JArr ys"
      and m: "mapE (update_one (propv ''payload'' action)) xs' = Inr ys"
    by (rule incidentsReducer_update_arr)
  from d have xs': "xs' = xs" by (simp add: default_param_def)
  have "\<forall>i<length xs. \<forall>iid pid.
          get_prop ''id'' (xs ! i) = Inr iid \<longrightarrow>
          get_prop ''id'' (propv ''payload'' action) = Inr pid \<longrightarrow>
          ys ! i = (if strict_eq iid pid
                    then JObj (spread2 (xs ! i) (propv ''payload'' action))
                    else xs ! i)"
  proof (intro allI impI)
    fix i iid pid
    assume i: "i < length xs" and iid: "get_prop ''id'' (xs ! i) = Inr iid"
       and pid: "get_prop ''id'' (propv ''payload'' action) = Inr pid"
    from mapE_nth[OF m[unfolded xs'] i]
    have u: "update_one (propv ''payload'' action) (xs ! i) = Inr (ys ! i)" .
    show "ys ! i = (if strict_eq iid pid
                    then JObj (spread2 (xs ! i) (propv ''payload'' action))
                    else xs ! i)"
      using update_one_other[OF u iid pid] update_one_match[OF u iid pid] by simp
  qed
  with s1 mapE_length[OF m] xs'
  show "\<exists>ys. s1 = JArr ys \<and> length ys = length xs \<and>
               (\<forall>i<length xs. \<forall>iid pid.
                   get_prop ''id'' (xs ! i) = Inr iid \<longrightarrow>
                   get_prop ''id'' (propv ''payload'' action) = Inr pid \<longrightarrow>
                   ys ! i = (if strict_eq iid pid
                             then JObj (spread2 (xs ! i) (propv ''payload'' action))
                             else xs ! i))"
    by blast
next
  assume "(\<forall>x\<in>set xs. x \<noteq> JUndefined \<and> x \<noteq> JNull) \<and>
           propv ''payload'' action \<noteq> JUndefined \<and> propv ''payload'' action \<noteq> JNull"
  then show "\<exists>ys. incidentsReducer (JArr xs) action = Inr (JArr ys)"
    using incidents_update_total[OF ty] by blast
qed

definition inc1 :: jsval where
  "inc1 = JObj [(''id'', JNum 1), (''status'', JStr ''pendiente'')]"
definition inc2 :: jsval where
  "inc2 = JObj [(''id'', JNum 2), (''status'', JStr ''pendiente'')]"
definition patch1 :: jsval where
  "patch1 = JObj [(''id'', JNum 1), (''status'', JStr ''resuelto'')]"

text \<open>Witness for C8: two incidents, and a patch for the first.\<close>

theorem updateIncident_idempotent_witness:
  "propv ''type'' [(''type'', JStr UPDATE_INCIDENT),
                   (''payload'', JObj [(''id'', JNum 1), (''status'', JStr ''resuelto'')])]
     = JStr UPDATE_INCIDENT
   \<and> incidentsReducer (JArr [JObj [(''id'', JNum 1), (''status'', JStr ''pendiente'')],
                           JObj [(''id'', JNum 2), (''status'', JStr ''pendiente'')]])
      [(''type'', JStr UPDATE_INCIDENT), (''payload'', JObj [(''id'', JNum 1), (''status'', JStr ''resuelto'')])]
   = Inr (JArr [JObj [(''id'', JNum 1), (''status'', JStr ''resuelto'')],
                JObj [(''id'', JNum 2), (''status'', JStr ''pendiente'')]])
   \<and> incidentsReducer (JArr [JObj [(''id'', JNum 1), (''status'', JStr ''resuelto'')],
                JObj [(''id'', JNum 2), (''status'', JStr ''pendiente'')]])
      [(''type'', JStr UPDATE_INCIDENT), (''payload'', JObj [(''id'', JNum 1), (''status'', JStr ''resuelto'')])]
   = Inr (JArr [JObj [(''id'', JNum 1), (''status'', JStr ''resuelto'')],
                JObj [(''id'', JNum 2), (''status'', JStr ''pendiente'')]])"
proof -
  let ?a = "[(''type'', JStr UPDATE_INCIDENT),
             (''payload'', JObj [(''id'', JNum 1), (''status'', JStr ''resuelto'')])]"
  have ty: "propv ''type'' ?a = JStr UPDATE_INCIDENT" by (simp add: propv_def)
  have r: "incidentsReducer (JArr [JObj [(''id'', JNum 1), (''status'', JStr ''pendiente'')],
                           JObj [(''id'', JNum 2), (''status'', JStr ''pendiente'')]]) ?a
     = Inr (JArr [JObj [(''id'', JNum 1), (''status'', JStr ''resuelto'')],
                JObj [(''id'', JNum 2), (''status'', JStr ''pendiente'')]])"
    by (simp add: incidentsReducer_def propv_def action_type_defs
     default_param_def update_one_def bindE_def strict_eq_def spread2_def assign_def Let_def)
  from updateIncident_idempotent[OF ty] r ty show ?thesis by blast
qed

subsection \<open>Deleting the selected incident\<close>

lemma digit_cases:
  "d < 10 \<Longrightarrow> d = 0 \<or> d = 1 \<or> d = 2 \<or> d = 3 \<or> d = 4 \<or> d = 5 \<or> d = 6 \<or> d = 7 \<or> d = 8 \<or> d = (9::nat)"
  by arith

lemma of_char_digit_char: "d < 10 \<Longrightarrow> of_char (digit_char d) = 48 + d"
  using digit_cases[of d] by (auto simp: digit_char_def)
























section \<open>Properties of the store\<close>

lemma dispatch_accepts:
  assumes "typeof_object action" and "get_prop ''type'' action = Inr ty" and "truthy ty"
      and "call_middlewares (middlewares (the_store rt)) (getState rt)
             (enhance (actionCounter (the_store rt) + 1) now action) = (k, Inr outs)"
  shows "dispatch now action rt =
     (Inr (enhance (actionCounter (the_store rt) + 1) now action),
      rt\<lparr> the_store := (the_store rt)\<lparr> actionCounter := actionCounter (the_store rt) + 1 \<rparr>,
          mw_calls := mw_calls rt @ replicate k (enhance (actionCounter (the_store rt) + 1) now action),
          continuations := continuations rt @
             [(enhance (actionCounter (the_store rt) + 1) now action, outs)] \<rparr>)"
  using assms by (simp add: dispatch_def Let_def getState_def)

lemma dispatch_middleware_throws:
  assumes "typeof_object action" and "get_prop ''type'' action = Inr ty" and "truthy ty"
      and "call_middlewares (middlewares (the_store rt)) (getState rt)
             (enhance (actionCounter (the_store rt) + 1) now action) = (k, Inl e)"
  shows "dispatch now action rt =
     (Inl e,
      rt\<lparr> the_store := (the_store rt)\<lparr> actionCounter := actionCounter (the_store rt) + 1 \<rparr>,
          mw_calls := mw_calls rt @ replicate k (enhance (actionCounter (the_store rt) + 1) now action) \<rparr>)"
  using assms by (simp add: dispatch_def Let_def getState_def)

lemma process_action_ok:
  assumes "rootReducer (getState r) ea = Inr reduced"
  shows "getState (process_action dev ea r) =
           (if dev then reduced\<lparr> actionLog := slice_last19 (actionLog (getState r)) @
                       [JObj [(''type'', propv ''type'' ea),
                              (''payload'', propv ''payload'' ea),
                              (''timestamp'', propv ''_timestamp'' ea)]] \<rparr>
            else reduced)"
    and "notified (process_action dev ea r) =
           notified r @ map (\<lambda>s. (s, getState (process_action dev ea r))) (subscribers (the_store r))"
    and "subscribers (the_store (process_action dev ea r)) = subscribers (the_store r)"
    and "continuations (process_action dev ea r) = continuations r"
  using assms by (simp_all add: process_action_def Let_def notifySubscribers_def getState_def)

lemma process_action_throws:
  assumes "rootReducer (getState r) ea = Inl e"
  shows "process_action dev ea r = r"
  using assms by (simp add: process_action_def)

lemma count_list_map_distinct:
  "distinct xs \<Longrightarrow> s \<in> set xs \<Longrightarrow> count_list (map (\<lambda>x. (x, v)) xs) (s, v) = 1"
  by (induction xs) (auto simp: image_iff)

lemma run_continuation_fulfilled:
  assumes i: "i < length (continuations r)"
      and c: "continuations r ! i = (ea, outs)"
      and f: "list_all (\<lambda>out. out = MwFulfilled) outs"
  shows "run_continuation dev i r =
           process_action dev ea
             (r\<lparr> continuations := take i (continuations r) @ drop (Suc i) (continuations r) \<rparr>)"
proof -
  from f have "MwRejected \<notin> set outs" by (auto simp: list_all_iff)
  with i c f show ?thesis by (simp add: run_continuation_def Let_def)
qed

lemma run_continuation_not_fulfilled:
  assumes i: "i < length (continuations r)"
      and c: "continuations r ! i = (ea, outs)"
      and f: "\<not> list_all (\<lambda>out. out = MwFulfilled) outs"
  shows "getState (run_continuation dev i r) = getState r"
    and "notified (run_continuation dev i r) = notified r"
  using assms by (simp_all add: run_continuation_def Let_def getState_def)

lemma run_continuation_reducer_throws:
  assumes i: "i < length (continuations r)"
      and c: "continuations r ! i = (ea, outs)"
      and t: "rootReducer (getState r) ea = Inl e"
  shows "getState (run_continuation dev i r) = getState r"
    and "notified (run_continuation dev i r) = notified r"
proof -
  let ?r = "r\<lparr> continuations := take i (continuations r) @ drop (Suc i) (continuations r) \<rparr>"
  have g: "getState ?r = getState r" by (simp add: getState_def)
  with t have "process_action dev ea ?r = ?r" by (simp add: process_action_throws)
  with i c show "getState (run_continuation dev i r) = getState r"
    and "notified (run_continuation dev i r) = notified r"
    by (simp_all add: run_continuation_def Let_def getState_def)
qed

lemma run_continuation_updates:
  assumes i: "i < length (continuations r)"
      and c: "continuations r ! i = (ea, outs)"
      and f: "list_all (\<lambda>out. out = MwFulfilled) outs"
      and red: "rootReducer (getState r) ea = Inr reduced"
      and s': "s' = (if dev then reduced\<lparr> actionLog := slice_last19 (actionLog (getState r)) @
                       [JObj [(''type'', propv ''type'' ea),
                              (''payload'', propv ''payload'' ea),
                              (''timestamp'', propv ''_timestamp'' ea)]] \<rparr>
                     else reduced)"
  shows "getState (run_continuation dev i r) = s'"
    and "notified (run_continuation dev i r) =
           notified r @ map (\<lambda>s. (s, s')) (subscribers (the_store r))"
    and "continuations (run_continuation dev i r) =
           take i (continuations r) @ drop (Suc i) (continuations r)"
proof -
  let ?r = "r\<lparr> continuations := take i (continuations r) @ drop (Suc i) (continuations r) \<rparr>"
  have g: "getState ?r = getState r" by (simp add: getState_def)
  have run: "run_continuation dev i r = process_action dev ea ?r"
    using i c f by (rule run_continuation_fulfilled)
  from red g have red': "rootReducer (getState ?r) ea = Inr reduced" by simp
  from process_action_ok(1)[OF red', of dev] g s'
  show 1: "getState (run_continuation dev i r) = s'" by (simp add: run)
  from process_action_ok(2)[OF red', of dev] 1
  show "notified (run_continuation dev i r) =
           notified r @ map (\<lambda>s. (s, s')) (subscribers (the_store r))"
    by (simp add: run)
  from process_action_ok(4)[OF red', of dev]
  show "continuations (run_continuation dev i r) =
           take i (continuations r) @ drop (Suc i) (continuations r)"
    by (simp add: run)
qed

lemma ea0: "enhance 1 1000 (setLoading (JBool True)) =
   [(''type'', JStr SET_LOADING), (''payload'', JBool True), (''_id'', JNum 1), (''_timestamp'', JNum 1000)]"
  by (simp add: enhance_def setLoading_def createAction_def assign_def)

lemma red0: "rootReducer (initialState False)
   [(''type'', JStr SET_LOADING), (''payload'', JBool True), (''_id'', JNum 1), (''_timestamp'', JNum 1000)]
  = Inr \<lparr> loading = JBool True, incidents = JArr [], currentIncident = JNull,
          notifications = JArr [], error = JNull,
          ui = JObj [(''darkMode'', JBool False), (''menuOpen'', JBool False),
                     (''filterStatus'', JStr ''all''), (''loading'', JBool True)],
          actionLog = [] \<rparr>"
  by (simp add: reducer_defs initialState_def)

lemma subscribe_distinct:
  "distinct (subscribers (the_store rt)) \<Longrightarrow> distinct (subscribers (the_store (subscribe s rt)))"
  by (simp add: subscribe_def)

lemma unsubscribe_distinct:
  "distinct (subscribers (the_store rt)) \<Longrightarrow> distinct (subscribers (the_store (unsubscribe s rt)))"
  by (simp add: unsubscribe_def distinct_removeAll)

lemma new_store_distinct: "distinct (subscribers (the_store (new_store darkMode)))"
  by (simp add: new_store_def)

text \<open>
  Claim C7. An action whose \<open>type\<close> is missing or empty (more generally falsy, or
  unreadable because the action is \<open>null\<close> or \<open>undefined\<close>) makes \<open>dispatch\<close> throw at
  once: the call returns an error and leaves the whole run-time as it was, so the
  state, the action counter, the record of middleware calls and the list of waiting
  continuations are unchanged, and no reducer will ever run for it.
\<close>

theorem dispatch_rejects_untyped_action:
  assumes "case get_prop ''type'' action of Inl e \<Rightarrow> True | Inr ty \<Rightarrow> \<not> truthy ty"
  shows "dispatch now action rt =
           (Inl (if action = JNull then TypeError else Error action_error_message), rt)"
proof (cases "typeof_object action")
  case False
  then have "action \<noteq> JNull" by auto
  with False show ?thesis by (simp add: dispatch_def)
next
  case True
  show ?thesis
  proof (cases "get_prop ''type'' action")
    case (Inl e)
    with True have "action = JNull" by (cases action) auto
    then show ?thesis by (simp add: dispatch_def)
  next
    case (Inr ty)
    then have nn: "action \<noteq> JNull" by auto
    from Inr assms have "\<not> truthy ty" by simp
    with True Inr nn show ?thesis by (simp add: dispatch_def)
  qed
qed

text \<open>Witness for C7: an object with a payload and no type, dispatched to a new store.\<close>

theorem dispatch_rejects_untyped_action_witness:
  "(case get_prop ''type'' (JObj [(''payload'', JNum 1)]) of Inl e \<Rightarrow> True | Inr ty \<Rightarrow> \<not> truthy ty)
   \<and> dispatch 1000 (JObj [(''payload'', JNum 1)]) (new_store False)
       = (Inl (Error action_error_message), new_store False)"
proof -
  have h: "case get_prop ''type'' (JObj [(''payload'', JNum 1)]) of
             Inl e \<Rightarrow> True | Inr ty \<Rightarrow> \<not> truthy ty"
    by (simp add: propv_def)
  from dispatch_rejects_untyped_action[OF h, of 1000 "new_store False"] h
  show ?thesis by simp
qed

text \<open>
  Claim C1, as amended. For every well-formed action (an object whose \<open>type\<close> is
  truthy) and middlewares that do not throw when called, \<open>dispatch\<close> returns the
  enhanced action itself, not a deferred: at its return the state and the record of
  subscriber calls are what they were, and one continuation has been queued. When that
  continuation is run, all middleware promises having fulfilled, and the reducer returns
  for the state of that moment, the state becomes the reducer's result (with the action
  log entry in development mode) and the subscribers are called with that new state, one
  call each in the order of the set. When a middleware promise does not fulfil, or the
  reducer throws, running the continuation changes neither the state nor the record of
  subscriber calls.
\<close>

theorem dispatch_schedules_update:
  assumes obj: "typeof_object action"
      and ty: "get_prop ''type'' action = Inr ty"
      and tr: "truthy ty"
      and ea: "ea = enhance (actionCounter (the_store rt) + 1) now action"
      and mw: "call_middlewares (middlewares (the_store rt)) (getState rt) ea = (k, Inr outs)"
  shows "fst (dispatch now action rt) = Inr ea
       \<and> getState (snd (dispatch now action rt)) = getState rt
       \<and> notified (snd (dispatch now action rt)) = notified rt
       \<and> continuations (snd (dispatch now action rt)) = continuations rt @ [(ea, outs)]
       \<and> (\<forall>r i reduced s'.
             i < length (continuations r) \<longrightarrow> continuations r ! i = (ea, outs) \<longrightarrow>
             list_all (\<lambda>out. out = MwFulfilled) outs \<longrightarrow>
             rootReducer (getState r) ea = Inr reduced \<longrightarrow>
             s' = (if dev then reduced\<lparr> actionLog := slice_last19 (actionLog (getState r)) @
                       [JObj [(''type'', propv ''type'' ea),
                              (''payload'', propv ''payload'' ea),
                              (''timestamp'', propv ''_timestamp'' ea)]] \<rparr>
                   else reduced) \<longrightarrow>
               getState (run_continuation dev i r) = s'
             \<and> notified (run_continuation dev i r) =
                 notified r @ map (\<lambda>s. (s, s')) (subscribers (the_store r))
             \<and> (distinct (subscribers (the_store r)) \<longrightarrow>
                  (\<forall>s\<in>set (subscribers (the_store r)).
                     count_list (map (\<lambda>s. (s, s')) (subscribers (the_store r))) (s, s') = 1))
             \<and> continuations (run_continuation dev i r) =
                 take i (continuations r) @ drop (Suc i) (continuations r))
       \<and> (\<forall>r i. i < length (continuations r) \<longrightarrow> continuations r ! i = (ea, outs) \<longrightarrow>
             (\<not> list_all (\<lambda>out. out = MwFulfilled) outs \<or> (\<exists>e. rootReducer (getState r) ea = Inl e)) \<longrightarrow>
               getState (run_continuation dev i r) = getState r
             \<and> notified (run_continuation dev i r) = notified r)"
proof -
  note d = dispatch_accepts[OF obj ty tr mw[unfolded ea], folded ea]
  have a: "fst (dispatch now action rt) = Inr ea" by (simp add: d)
  have b: "getState (snd (dispatch now action rt)) = getState rt" by (simp add: d getState_def)
  have c: "notified (snd (dispatch now action rt)) = notified rt" by (simp add: d)
  have e: "continuations (snd (dispatch now action rt)) = continuations rt @ [(ea, outs)]"
    by (simp add: d)
  show ?thesis
  proof (intro conjI allI impI ballI)
    show "fst (dispatch now action rt) = Inr ea" by (rule a)
    show "getState (snd (dispatch now action rt)) = getState rt" by (rule b)
    show "notified (snd (dispatch now action rt)) = notified rt" by (rule c)
    show "continuations (snd (dispatch now action rt)) = continuations rt @ [(ea, outs)]" by (rule e)
  next
    fix r i reduced s'
    assume h: "i < length (continuations r)" "continuations r ! i = (ea, outs)"
      "list_all (\<lambda>out. out = MwFulfilled) outs" "rootReducer (getState r) ea = Inr reduced"
      "s' = (if dev then reduced\<lparr> actionLog := slice_last19 (actionLog (getState r)) @
                       [JObj [(''type'', propv ''type'' ea),
                              (''payload'', propv ''payload'' ea),
                              (''timestamp'', propv ''_timestamp'' ea)]] \<rparr>
                   else reduced)"
    show "getState (run_continuation dev i r) = s'" using h by (rule run_continuation_updates(1))
    show "notified (run_continuation dev i r) =
            notified r @ map (\<lambda>s. (s, s')) (subscribers (the_store r))"
      using h by (rule run_continuation_updates(2))
    show "continuations (run_continuation dev i r) =
            take i (continuations r) @ drop (Suc i) (continuations r)"
      using h by (rule run_continuation_updates(3))
  next
    fix r i reduced s' s
    assume "distinct (subscribers (the_store r))" "s \<in> set (subscribers (the_store r))"
    then show "count_list (map (\<lambda>s. (s, s')) (subscribers (the_store r))) (s, s') = 1"
      by (rule count_list_map_distinct)
  next
    fix r i
    assume h: "i < length (continuations r)" "continuations r ! i = (ea, outs)"
      and n: "\<not> list_all (\<lambda>out. out = MwFulfilled) outs \<or> (\<exists>e. rootReducer (getState r) ea = Inl e)"
    from n show "getState (run_continuation dev i r) = getState r"
      using run_continuation_not_fulfilled(1)[OF h] run_continuation_reducer_throws(1)[OF h]
      by blast
    from n show "notified (run_continuation dev i r) = notified r"
      using run_continuation_not_fulfilled(2)[OF h] run_continuation_reducer_throws(2)[OF h]
      by blast
  qed
qed

text \<open>Witness for C1: \<open>setLoading(true)\<close> dispatched to a new store with one subscriber
  and no middleware, and its continuation run.\<close>

theorem dispatch_schedules_update_witness:
  "typeof_object (setLoading (JBool True))
   \<and> get_prop ''type'' (setLoading (JBool True)) = Inr (JStr SET_LOADING)
   \<and> truthy (JStr SET_LOADING)
   \<and> call_middlewares (middlewares (the_store (subscribe 7 (new_store False))))
         (getState (subscribe 7 (new_store False)))
         (enhance (actionCounter (the_store (subscribe 7 (new_store False))) + 1) 1000
            (setLoading (JBool True))) = (0, Inr [])
   \<and> fst (dispatch 1000 (setLoading (JBool True)) (subscribe 7 (new_store False)))
       = Inr (enhance (actionCounter (the_store (subscribe 7 (new_store False))) + 1) 1000
                (setLoading (JBool True)))
   \<and> loading (getState (run_continuation False 0
         (snd (dispatch 1000 (setLoading (JBool True)) (subscribe 7 (new_store False))))))
       = JBool True
   \<and> map fst (notified (run_continuation False 0
         (snd (dispatch 1000 (setLoading (JBool True)) (subscribe 7 (new_store False))))))
       = [7]"
proof -
  let ?a = "setLoading (JBool True)"
  let ?rt = "subscribe 7 (new_store False)"
  let ?ea = "enhance (actionCounter (the_store ?rt) + 1) 1000 ?a"
  let ?red = "\<lparr> loading = JBool True, incidents = JArr [], currentIncident = JNull,
          notifications = JArr [], error = JNull,
          ui = JObj [(''darkMode'', JBool False), (''menuOpen'', JBool False),
                     (''filterStatus'', JStr ''all''), (''loading'', JBool True)],
          actionLog = [] \<rparr>"
  have obj: "typeof_object ?a" by (simp add: setLoading_def createAction_def)
  have ty: "get_prop ''type'' ?a = Inr (JStr SET_LOADING)"
    by (simp add: setLoading_def createAction_def propv_def)
  have tr: "truthy (JStr SET_LOADING)" by (simp add: SET_LOADING_def)
  have mw: "call_middlewares (middlewares (the_store ?rt)) (getState ?rt) ?ea = (0, Inr [])"
    by (simp add: subscribe_def new_store_def)
  have cnt: "actionCounter (the_store ?rt) + 1 = 1" by (simp add: subscribe_def new_store_def)
  have subs: "subscribers (the_store ?rt) = [7]" by (simp add: subscribe_def new_store_def)
  have st: "getState ?rt = initialState False" by (simp add: subscribe_def new_store_def getState_def)
  have co: "continuations ?rt = []" by (simp add: subscribe_def new_store_def)
  have no: "notified ?rt = []" by (simp add: subscribe_def new_store_def)
  note t = dispatch_schedules_update[OF obj ty tr refl mw, where dev=False]
  from t have a: "fst (dispatch 1000 ?a ?rt) = Inr ?ea" by blast
  from t have g: "getState (snd (dispatch 1000 ?a ?rt)) = getState ?rt" by blast
  from t have n: "notified (snd (dispatch 1000 ?a ?rt)) = notified ?rt" by blast
  from t have c: "continuations (snd (dispatch 1000 ?a ?rt)) = continuations ?rt @ [(?ea, [])]"
    by blast
  have sb: "subscribers (the_store (snd (dispatch 1000 ?a ?rt))) = [7]"
    using dispatch_accepts[OF obj ty tr mw] subs by simp
  have red: "rootReducer (getState (snd (dispatch 1000 ?a ?rt))) ?ea = Inr ?red"
    by (simp only: g st cnt ea0 red0)
  from t have u: "\<And>r i reduced s'.
             i < length (continuations r) \<Longrightarrow> continuations r ! i = (?ea, []) \<Longrightarrow>
             list_all (\<lambda>out. out = MwFulfilled) [] \<Longrightarrow>
             rootReducer (getState r) ?ea = Inr reduced \<Longrightarrow>
             s' = (if False then reduced\<lparr> actionLog := slice_last19 (actionLog (getState r)) @
                       [JObj [(''type'', propv ''type'' ?ea),
                              (''payload'', propv ''payload'' ?ea),
                              (''timestamp'', propv ''_timestamp'' ?ea)]] \<rparr>
                   else reduced) \<Longrightarrow>
               getState (run_continuation False i r) = s'
             \<and> notified (run_continuation False i r) =
                 notified r @ map (\<lambda>s. (s, s')) (subscribers (the_store r))"
    by blast
  have "getState (run_continuation False 0 (snd (dispatch 1000 ?a ?rt))) = ?red
      \<and> notified (run_continuation False 0 (snd (dispatch 1000 ?a ?rt))) =
           notified (snd (dispatch 1000 ?a ?rt)) @
             map (\<lambda>s. (s, ?red)) (subscribers (the_store (snd (dispatch 1000 ?a ?rt))))"
    by (rule u[OF _ _ _ red]) (simp_all add: c co)
  then have l: "loading (getState (run_continuation False 0 (snd (dispatch 1000 ?a ?rt)))) = JBool True"
    and m: "map fst (notified (run_continuation False 0 (snd (dispatch 1000 ?a ?rt)))) = [7]"
    by (simp_all add: n no sb)
  from obj ty tr mw a l m show ?thesis by blast
qed

text \<open>
  Counterexample to C1 as stated: \<open>dispatch(setLoading(true))\<close> on a new store with the
  subscriber 7 has returned, with a plain action object; the state is still the initial
  one, whose \<open>loading\<close> is \<open>false\<close> while the reducer's result has \<open>true\<close>, and the
  subscriber has not been called.
\<close>

theorem dispatch_returns_before_update:
  "fst (dispatch 1000 (setLoading (JBool True)) (subscribe 7 (new_store False)))
     = Inr [(''type'', JStr SET_LOADING), (''payload'', JBool True),
            (''_id'', JNum 1), (''_timestamp'', JNum 1000)]
   \<and> getState (snd (dispatch 1000 (setLoading (JBool True)) (subscribe 7 (new_store False))))
     = initialState False
   \<and> loading (initialState False) = JBool False
   \<and> subscribers (the_store (snd (dispatch 1000 (setLoading (JBool True))
                                     (subscribe 7 (new_store False))))) = [7]
   \<and> notified (snd (dispatch 1000 (setLoading (JBool True)) (subscribe 7 (new_store False)))) = []
   \<and> map_sum id loading
        (rootReducer (initialState False)
           [(''type'', JStr SET_LOADING), (''payload'', JBool True),
            (''_id'', JNum 1), (''_timestamp'', JNum 1000)])
     = Inr (JBool True)"
proof -
  have d: "dispatch 1000 (setLoading (JBool True)) (subscribe 7 (new_store False)) =
     (Inr [(''type'', JStr SET_LOADING), (''payload'', JBool True),
            (''_id'', JNum 1), (''_timestamp'', JNum 1000)],
      \<lparr> the_store = \<lparr> state = initialState False, subscribers = [7], middlewares = [],
                      actionCounter = 1 \<rparr>,
        continuations = [([(''type'', JStr SET_LOADING), (''payload'', JBool True),
            (''_id'', JNum 1), (''_timestamp'', JNum 1000)], [])],
        notified = [], mw_calls = [] \<rparr>)"
    by (simp add: dispatch_def subscribe_def new_store_def getState_def Let_def
          setLoading_def createAction_def propv_def enhance_def assign_def)
       (simp add: SET_LOADING_def)
  show ?thesis
    by (simp add: d getState_def red0) (simp add: initialState_def)
qed

section \<open>Properties of the executor\<close>

text \<open>
  Claim C9. A message whose action is none of \<open>request\<close>, \<open>purgeCache\<close> and
  \<open>getCacheStats\<close> is still answered: the listener posts the envelope with the
  message's own \<open>id\<close> and the result \<open>{ success: false, error }\<close> naming the action,
  and leaves the executor as it was.
\<close>

theorem unsupported_action_answered:
  assumes "msg_action msg \<noteq> ''request''" and "msg_action msg \<noteq> ''purgeCache''"
      and "msg_action msg \<noteq> ''getCacheStats''"
  shows "on_message now regexp json_length msg ex =
           (Posts (JObj [(''id'', msg_id msg),
                         (''result'', JObj [(''success'', JBool False),
                                            (''error'', JStr (unsupported_prefix @ msg_action msg))])]),
            ex)"
  using assms by (simp add: on_message_def envelope_def)

text \<open>Witness for C9: the action \<open>ping\<close>.\<close>

theorem unsupported_action_answered_witness:
  "''ping'' \<noteq> ''request'' \<and> ''ping'' \<noteq> ''purgeCache'' \<and> ''ping'' \<noteq> ''getCacheStats''
   \<and> fst (on_message 1000 (\<lambda>p. None) (\<lambda>e. 0)
         \<lparr> msg_id = JStr ''msg_1000_0'', msg_action = ''ping'', msg_payload = ArgUndefined \<rparr>
         \<lparr> apiCache = [], fetch_log = [] \<rparr>)
     = Posts (JObj [(''id'', JStr ''msg_1000_0''),
                    (''result'', JObj [(''success'', JBool False),
                                       (''error'', JStr (unsupported_prefix @ ''ping''))])])"
proof -
  have h: "''ping'' \<noteq> ''request''" "''ping'' \<noteq> ''purgeCache''" "''ping'' \<noteq> ''getCacheStats''"
    by simp_all
  show ?thesis
    using unsupported_action_answered[of
        "\<lparr> msg_id = JStr ''msg_1000_0'', msg_action = ''ping'', msg_payload = ArgUndefined \<rparr>"
        1000 "\<lambda>p. None" "\<lambda>e. 0" "\<lparr> apiCache = [], fetch_log = [] \<rparr>"]
    by simp
qed

subsection \<open>The cache in \<open>processRequest\<close>\<close>

lemma cache_get_set: "cache_get k (cache_set k e c) = Some e"
  by (simp add: cache_get_def cache_set_def update_conv')

lemma cache_get_delete: "cache_get k (cache_delete k c) = None"
  by (simp add: cache_get_def cache_delete_def delete_conv')

lemma cache_has_get: "cache_has k c \<longleftrightarrow> cache_get k c \<noteq> None"
  by (simp add: cache_has_def cache_get_def)

lemma processRequest_start_GET:
  assumes m: "p_method request = None \<or> p_method request = Some ''GET''"
      and uc: "truthy (p_useCache request)"
      and url: "url = url_text (p_url request)"
      and key: "key = ''GET:'' @ url"
      and ttl: "ttl = (case p_cacheTTL request of None \<Rightarrow> 300000 | Some t \<Rightarrow> t)"
      and frame: "frame = \<lparr> f_cacheKey = key, f_method = ''GET'', f_useCache = p_useCache request \<rparr>"
  shows "processRequest_start now request ex =
     (case cache_get key (apiCache ex) of
        None \<Rightarrow> (Inr frame, ex\<lparr> fetch_log := fetch_log ex @ [(url, ''GET'', JUndefined)] \<rparr>)
      | Some e \<Rightarrow>
          if now - timestamp e < ttl
          then (Inl (cached_result (data e)), ex)
          else (Inr frame,
                ex\<lparr> apiCache := cache_delete key (apiCache ex),
                    fetch_log := fetch_log ex @ [(url, ''GET'', JUndefined)] \<rparr>))"
proof -
  from uc have u: "default_param (JBool False) (p_useCache request) = p_useCache request"
    by (auto simp: default_param_def)
  from m have me: "(case p_method request of None \<Rightarrow> ''GET'' | Some m \<Rightarrow> m) = ''GET''"
    by auto
  show ?thesis
    by (simp add: processRequest_start_def Let_def u me uc cache_has_get url key ttl frame
          split: option.splits)
qed

lemma processRequest_start_hit:
  assumes m: "p_method request = None \<or> p_method request = Some ''GET''"
      and uc: "truthy (p_useCache request)"
      and url: "url = url_text (p_url request)"
      and key: "key = ''GET:'' @ url"
      and ttl: "ttl = (case p_cacheTTL request of None \<Rightarrow> 300000 | Some t \<Rightarrow> t)"
      and e: "cache_get key (apiCache ex) = Some e"
      and fresh: "now - timestamp e < ttl"
  shows "processRequest_start now request ex = (Inl (cached_result (data e)), ex)"
  using e fresh by (simp add: processRequest_start_GET[OF m uc url key ttl refl])

lemma processRequest_start_miss:
  assumes m: "p_method request = None \<or> p_method request = Some ''GET''"
      and uc: "truthy (p_useCache request)"
      and url: "url = url_text (p_url request)"
      and key: "key = ''GET:'' @ url"
      and ttl: "ttl = (case p_cacheTTL request of None \<Rightarrow> 300000 | Some t \<Rightarrow> t)"
      and frame: "frame = \<lparr> f_cacheKey = key, f_method = ''GET'', f_useCache = p_useCache request \<rparr>"
      and miss: "\<forall>e. cache_get key (apiCache ex) = Some e \<longrightarrow> \<not> now - timestamp e < ttl"
  shows "fst (processRequest_start now request ex) = Inr frame"
    and "fetch_log (snd (processRequest_start now request ex)) =
           fetch_log ex @ [(url, ''GET'', JUndefined)]"
    and "cache_get key (apiCache (snd (processRequest_start now request ex))) = None"
proof -
  note G = processRequest_start_GET[OF m uc url key ttl frame, of now ex]
  show "fst (processRequest_start now request ex) = Inr frame"
    using miss by (simp add: G split: option.splits)
  show "fetch_log (snd (processRequest_start now request ex)) =
           fetch_log ex @ [(url, ''GET'', JUndefined)]"
    using miss by (simp add: G split: option.splits)
  show "cache_get key (apiCache (snd (processRequest_start now request ex))) = None"
  proof (cases "cache_get key (apiCache ex)")
    case None
    then show ?thesis by (simp add: G)
  next
    case (Some e)
    with miss have "\<not> now - timestamp e < ttl" by simp
    with Some show ?thesis by (simp add: G cache_get_delete)
  qed
qed

lemma processRequest_body_written:
  assumes "resp_ok r" and "read_body r = Inr d" and "truthy uc"
  shows "processRequest_body now' \<lparr> f_cacheKey = key, f_method = ''GET'', f_useCache = uc \<rparr> r t ex =
           (response_result r d t,
            ex\<lparr> apiCache := cache_set key \<lparr> timestamp = now', data = d \<rparr> (apiCache ex) \<rparr>)"
  using assms by (simp add: processRequest_body_def)

lemma processRequest_body_not_written:
  assumes "\<not> resp_ok r \<or> (\<exists>msg. read_body r = Inl msg)"
  shows "snd (processRequest_body now' frame r t ex) = ex"
  using assms by (auto simp: processRequest_body_def split: sum.splits)


text \<open>
  Claim C3, as amended. For a \<open>GET\<close> request with \<open>useCache\<close>, with \<open>key\<close> the cache
  key \<open>GET:url\<close> and \<open>frame\<close> its local variables: (1) started on a cache that holds an
  entry younger than \<open>cacheTTL\<close>, it returns that entry's data with \<open>fromCache = true\<close>
  and leaves the executor untouched, so it makes no network call; (2) started without
  such an entry, it is suspended after exactly one \<open>fetch\<close> call, and the key holds
  nothing then, a stale entry having been deleted; (3) resumed with an ok response whose
  body has been read, on the executor as it is at that moment, it writes the body under
  the key with the time of the write; (4) resumed with a response that is not ok or whose
  body cannot be read, it leaves the executor as it is; (5) a \<open>fetch\<close> that throws ends
  the request with a network error, the cache not being touched; (6) an identical
  request started on the executor as the write of (3) left it, less than \<open>cacheTTL\<close>
  after that write, is served from the cache; (7) so when the first of two identical
  requests finds no fresh entry, gets an ok response and reads its body, and the second
  is started after that write and less than \<open>cacheTTL\<close> after it, with nothing else run
  in between, the two make one network call together.
\<close>

theorem processRequest_cache:
  assumes m: "p_method request = None \<or> p_method request = Some ''GET''"
      and uc: "truthy (p_useCache request)"
      and url: "url = url_text (p_url request)"
      and key: "key = ''GET:'' @ url"
      and ttl: "ttl = (case p_cacheTTL request of None \<Rightarrow> 300000 | Some t \<Rightarrow> t)"
      and frame: "frame = \<lparr> f_cacheKey = key, f_method = ''GET'', f_useCache = p_useCache request \<rparr>"
  shows "(\<forall>e. cache_get key (apiCache ex) = Some e \<longrightarrow> now - timestamp e < ttl \<longrightarrow>
              processRequest_start now request ex = (Inl (cached_result (data e)), ex))
       \<and> ((\<forall>e. cache_get key (apiCache ex) = Some e \<longrightarrow> \<not> now - timestamp e < ttl) \<longrightarrow>
             fst (processRequest_start now request ex) = Inr frame
           \<and> fetch_log (snd (processRequest_start now request ex)) =
               fetch_log ex @ [(url, ''GET'', JUndefined)]
           \<and> cache_get key (apiCache (snd (processRequest_start now request ex))) = None)
       \<and> (\<forall>exA r t d now'.
             resp_ok r \<longrightarrow> read_body r = Inr d \<longrightarrow>
               processRequest_body now' frame r t exA =
                 (response_result r d t,
                  exA\<lparr> apiCache := cache_set key \<lparr> timestamp = now', data = d \<rparr> (apiCache exA) \<rparr>)
             \<and> cache_get key (apiCache (snd (processRequest_body now' frame r t exA))) =
                 Some \<lparr> timestamp = now', data = d \<rparr>)
       \<and> (\<forall>exA r t now'.
             \<not> resp_ok r \<or> (\<exists>msg. read_body r = Inl msg) \<longrightarrow>
               snd (processRequest_body now' frame r t exA) = exA)
       \<and> (\<forall>t msg. processRequest_fetched t (FetchThrows msg) = Inl (network_error_result msg))
       \<and> (\<forall>exA r t d now' now2.
             resp_ok r \<longrightarrow> read_body r = Inr d \<longrightarrow> now2 - now' < ttl \<longrightarrow>
               processRequest_start now2 request (snd (processRequest_body now' frame r t exA)) =
                 (Inl (cached_result d), snd (processRequest_body now' frame r t exA)))
       \<and> (\<forall>r t d now' now2.
             (\<forall>e. cache_get key (apiCache ex) = Some e \<longrightarrow> \<not> now - timestamp e < ttl) \<longrightarrow>
             resp_ok r \<longrightarrow> read_body r = Inr d \<longrightarrow> now2 - now' < ttl \<longrightarrow>
               fetch_log (snd (processRequest_start now2 request
                  (snd (processRequest_body now' frame r t
                     (snd (processRequest_start now request ex)))))) =
                 fetch_log ex @ [(url, ''GET'', JUndefined)])"
proof -
  have written: "processRequest_body now' frame r t exA =
                 (response_result r d t,
                  exA\<lparr> apiCache := cache_set key \<lparr> timestamp = now', data = d \<rparr> (apiCache exA) \<rparr>)"
    if "resp_ok r" "read_body r = Inr d" for exA r t d now'
    using that uc by (simp add: frame processRequest_body_written)
  have entry: "cache_get key (apiCache (snd (processRequest_body now' frame r t exA))) =
                 Some \<lparr> timestamp = now', data = d \<rparr>"
    if "resp_ok r" "read_body r = Inr d" for exA r t d now'
    by (simp add: written[OF that] cache_get_set)
  have again: "processRequest_start now2 request (snd (processRequest_body now' frame r t exA)) =
                 (Inl (cached_result d), snd (processRequest_body now' frame r t exA))"
    if "resp_ok r" "read_body r = Inr d" "now2 - now' < ttl" for exA r t d now' now2
  proof -
    have fresh: "now2 - timestamp \<lparr> timestamp = now', data = d \<rparr> < ttl"
      using that(3) by simp
    from processRequest_start_hit[OF m uc url key ttl entry[OF that(1,2)] fresh]
    show ?thesis by simp
  qed
  have c1: "\<forall>e. cache_get key (apiCache ex) = Some e \<longrightarrow> now - timestamp e < ttl \<longrightarrow>
              processRequest_start now request ex = (Inl (cached_result (data e)), ex)"
    using processRequest_start_hit[OF m uc url key ttl] by blast
  have c2: "(\<forall>e. cache_get key (apiCache ex) = Some e \<longrightarrow> \<not> now - timestamp e < ttl) \<longrightarrow>
             fst (processRequest_start now request ex) = Inr frame
           \<and> fetch_log (snd (processRequest_start now request ex)) =
               fetch_log ex @ [(url, ''GET'', JUndefined)]
           \<and> cache_get key (apiCache (snd (processRequest_start now request ex))) = None"
    using processRequest_start_miss[OF m uc url key ttl frame] by blast
  have c3: "\<forall>exA r t d now'.
             resp_ok r \<longrightarrow> read_body r = Inr d \<longrightarrow>
               processRequest_body now' frame r t exA =
                 (response_result r d t,
                  exA\<lparr> apiCache := cache_set key \<lparr> timestamp = now', data = d \<rparr> (apiCache exA) \<rparr>)
             \<and> cache_get key (apiCache (snd (processRequest_body now' frame r t exA))) =
                 Some \<lparr> timestamp = now', data = d \<rparr>"
    using written entry by blast
  have c4: "\<forall>exA r t now'.
             \<not> resp_ok r \<or> (\<exists>msg. read_body r = Inl msg) \<longrightarrow>
               snd (processRequest_body now' frame r t exA) = exA"
    using processRequest_body_not_written by blast
  have c5: "\<forall>t msg. processRequest_fetched t (FetchThrows msg) = Inl (network_error_result msg)"
    by (simp add: processRequest_fetched_def)
  have c6: "\<forall>exA r t d now' now2.
             resp_ok r \<longrightarrow> read_body r = Inr d \<longrightarrow> now2 - now' < ttl \<longrightarrow>
               processRequest_start now2 request (snd (processRequest_body now' frame r t exA)) =
                 (Inl (cached_result d), snd (processRequest_body now' frame r t exA))"
    using again by blast
  have c7: "\<forall>r t d now' now2.
             (\<forall>e. cache_get key (apiCache ex) = Some e \<longrightarrow> \<not> now - timestamp e < ttl) \<longrightarrow>
             resp_ok r \<longrightarrow> read_body r = Inr d \<longrightarrow> now2 - now' < ttl \<longrightarrow>
               fetch_log (snd (processRequest_start now2 request
                  (snd (processRequest_body now' frame r t
                     (snd (processRequest_start now request ex)))))) =
                 fetch_log ex @ [(url, ''GET'', JUndefined)]"
  proof (intro allI impI)
    fix r :: http_response and t :: int and d :: jsval and now' now2 :: int
    assume miss: "\<forall>e. cache_get key (apiCache ex) = Some e \<longrightarrow> \<not> now - timestamp e < ttl"
       and ok: "resp_ok r" and rb: "read_body r = Inr d" and within: "now2 - now' < ttl"
    let ?ex1 = "snd (processRequest_start now request ex)"
    have l1: "fetch_log ?ex1 = fetch_log ex @ [(url, ''GET'', JUndefined)]"
      using processRequest_start_miss(2)[OF m uc url key ttl frame miss] .
    have l2: "fetch_log (snd (processRequest_body now' frame r t ?ex1)) = fetch_log ?ex1"
      by (simp add: written[OF ok rb])
    show "fetch_log (snd (processRequest_start now2 request
                  (snd (processRequest_body now' frame r t ?ex1)))) =
                 fetch_log ex @ [(url, ''GET'', JUndefined)]"
      by (simp only: again[OF ok rb within] snd_conv l2 l1)
  qed
  from c1 c2 c3 c4 c5 c6 c7 show ?thesis by (intro conjI)
qed


text \<open>Witness for C3: \<open>GET /incidents\<close> started at 1000 on an empty cache, answered
  with 200 and a JSON body written at 1005, and the same request started at 1006.\<close>

theorem processRequest_cache_witness:
  "(p_method \<lparr> p_url = Some ''/incidents'', p_method = Some ''GET'', p_body = JUndefined,
          p_headers = None, p_useCache = JBool True, p_cacheTTL = None, p_pattern = None,
          p_olderThan = JUndefined \<rparr> = None
    \<or> p_method \<lparr> p_url = Some ''/incidents'', p_method = Some ''GET'', p_body = JUndefined,
          p_headers = None, p_useCache = JBool True, p_cacheTTL = None, p_pattern = None,
          p_olderThan = JUndefined \<rparr> = Some ''GET'')
   \<and> truthy (JBool True)
   \<and> resp_ok \<lparr> resp_ok = True, resp_status = 200, resp_statusText = ''OK'', resp_headers = [],
             resp_contentType = Some ''application/json'', resp_json = Inr (JArr []),
             resp_text = ''[]'' \<rparr>
   \<and> read_body \<lparr> resp_ok = True, resp_status = 200, resp_statusText = ''OK'', resp_headers = [],
             resp_contentType = Some ''application/json'', resp_json = Inr (JArr []),
             resp_text = ''[]'' \<rparr> = Inr (JArr [])
   \<and> (1006::int) - 1005 < 300000
   \<and> fst (processRequest_start 1000
          \<lparr> p_url = Some ''/incidents'', p_method = Some ''GET'', p_body = JUndefined,
          p_headers = None, p_useCache = JBool True, p_cacheTTL = None, p_pattern = None,
          p_olderThan = JUndefined \<rparr>
          \<lparr> apiCache = [], fetch_log = [] \<rparr>)
       = Inr \<lparr> f_cacheKey = ''GET:/incidents'', f_method = ''GET'', f_useCache = JBool True \<rparr>
   \<and> fst (processRequest_start 1006
          \<lparr> p_url = Some ''/incidents'', p_method = Some ''GET'', p_body = JUndefined,
          p_headers = None, p_useCache = JBool True, p_cacheTTL = None, p_pattern = None,
          p_olderThan = JUndefined \<rparr>
          (snd (processRequest_body 1005
            \<lparr> f_cacheKey = ''GET:/incidents'', f_method = ''GET'', f_useCache = JBool True \<rparr>
            \<lparr> resp_ok = True, resp_status = 200, resp_statusText = ''OK'', resp_headers = [],
             resp_contentType = Some ''application/json'', resp_json = Inr (JArr []),
             resp_text = ''[]'' \<rparr> 5
            (snd (processRequest_start 1000
              \<lparr> p_url = Some ''/incidents'', p_method = Some ''GET'', p_body = JUndefined,
          p_headers = None, p_useCache = JBool True, p_cacheTTL = None, p_pattern = None,
          p_olderThan = JUndefined \<rparr>
              \<lparr> apiCache = [], fetch_log = [] \<rparr>)))))
       = Inl (JObj [(''success'', JBool True), (''data'', JArr []), (''fromCache'', JBool True)])
   \<and> fetch_log (snd (processRequest_start 1006
          \<lparr> p_url = Some ''/incidents'', p_method = Some ''GET'', p_body = JUndefined,
          p_headers = None, p_useCache = JBool True, p_cacheTTL = None, p_pattern = None,
          p_olderThan = JUndefined \<rparr>
          (snd (processRequest_body 1005
            \<lparr> f_cacheKey = ''GET:/incidents'', f_method = ''GET'', f_useCache = JBool True \<rparr>
            \<lparr> resp_ok = True, resp_status = 200, resp_statusText = ''OK'', resp_headers = [],
             resp_contentType = Some ''application/json'', resp_json = Inr (JArr []),
             resp_text = ''[]'' \<rparr> 5
            (snd (processRequest_start 1000
              \<lparr> p_url = Some ''/incidents'', p_method = Some ''GET'', p_body = JUndefined,
          p_headers = None, p_useCache = JBool True, p_cacheTTL = None, p_pattern = None,
          p_olderThan = JUndefined \<rparr>
              \<lparr> apiCache = [], fetch_log = [] \<rparr>))))))
       = [(''/incidents'', ''GET'', JUndefined)]"
proof -
  let ?req = "\<lparr> p_url = Some ''/incidents'', p_method = Some ''GET'', p_body = JUndefined,
          p_headers = None, p_useCache = JBool True, p_cacheTTL = None, p_pattern = None,
          p_olderThan = JUndefined \<rparr>"
  let ?r = "\<lparr> resp_ok = True, resp_status = 200, resp_statusText = ''OK'', resp_headers = [],
             resp_contentType = Some ''application/json'', resp_json = Inr (JArr []),
             resp_text = ''[]'' \<rparr>"
  let ?frame = "\<lparr> f_cacheKey = ''GET:/incidents'', f_method = ''GET'', f_useCache = JBool True \<rparr>"
  let ?ex = "\<lparr> apiCache = [], fetch_log = [] \<rparr>"
  let ?ex1 = "snd (processRequest_start 1000 ?req ?ex)"
  let ?ex2 = "snd (processRequest_body 1005 ?frame ?r 5 ?ex1)"
  have m: "p_method ?req = None \<or> p_method ?req = Some ''GET''" by simp
  have uc: "truthy (p_useCache ?req)" by simp
  have url: "''/incidents'' = url_text (p_url ?req)" by (simp add: url_text_def)
  have key: "''GET:/incidents'' = ''GET:'' @ ''/incidents''" by simp
  have ttl: "(300000::int) = (case p_cacheTTL ?req of None \<Rightarrow> 300000 | Some t \<Rightarrow> t)" by simp
  have frame: "?frame = \<lparr> f_cacheKey = ''GET:/incidents'', f_method = ''GET'',
                           f_useCache = p_useCache ?req \<rparr>" by simp
  have miss: "\<forall>e. cache_get ''GET:/incidents'' (apiCache ?ex) = Some e \<longrightarrow>
                \<not> 1000 - timestamp e < 300000"
    by (simp add: cache_get_def)
  have ok: "resp_ok ?r" by simp
  have body: "read_body ?r = Inr (JArr [])" by (simp add: read_body_def starts_with_def)
  have within: "(1006::int) - 1005 < 300000" by simp
  note c = processRequest_cache[OF m uc url key ttl frame, of ?ex 1000]
  from c[THEN conjunct2, THEN conjunct1] miss
  have a: "fst (processRequest_start 1000 ?req ?ex) = Inr ?frame" by blast
  from c[THEN conjunct2, THEN conjunct2, THEN conjunct2, THEN conjunct2, THEN conjunct2,
         THEN conjunct1] ok body within
  have "processRequest_start 1006 ?req ?ex2 = (Inl (cached_result (JArr [])), ?ex2)" by blast
  then have b: "fst (processRequest_start 1006 ?req ?ex2) = Inl (cached_result (JArr []))"
    by (metis fst_conv)
  from c[THEN conjunct2, THEN conjunct2, THEN conjunct2, THEN conjunct2, THEN conjunct2,
         THEN conjunct2] miss ok body within
  have "fetch_log (snd (processRequest_start 1006 ?req ?ex2)) =
          fetch_log ?ex @ [(''/incidents'', ''GET'', JUndefined)]" by blast
  moreover have "fetch_log ?ex @ [(''/incidents'', ''GET'', JUndefined)]
             = [(''/incidents'', ''GET'', JUndefined)]" by simp
  ultimately have d: "fetch_log (snd (processRequest_start 1006 ?req ?ex2)) =
          [(''/incidents'', ''GET'', JUndefined)]" by (simp only:)
  have t: "truthy (JBool True)" by simp
  from m t ok body within a b[unfolded cached_result_def] d show ?thesis by (intro conjI)
qed

text \<open>
  Counterexample to C3 as stated: two identical \<open>GET\<close> requests with \<open>useCache\<close>, back to
  back within the TTL, make two network calls when the second is started while the first
  is suspended in \<open>fetch\<close> (no entry has been written yet); when the first is
  answered 500 (nothing is written); and when the first is answered 200 with a JSON body
  that cannot be parsed (the response is ok and still nothing is written).
\<close>

theorem identical_requests_fetch_twice:
  "fetch_log (snd (processRequest_start 1001
          \<lparr> p_url = Some ''/incidents'', p_method = Some ''GET'', p_body = JUndefined,
          p_headers = None, p_useCache = JBool True, p_cacheTTL = None, p_pattern = None,
          p_olderThan = JUndefined \<rparr>
          (snd (processRequest_start 1000
            \<lparr> p_url = Some ''/incidents'', p_method = Some ''GET'', p_body = JUndefined,
          p_headers = None, p_useCache = JBool True, p_cacheTTL = None, p_pattern = None,
          p_olderThan = JUndefined \<rparr>
            \<lparr> apiCache = [], fetch_log = [] \<rparr>))))
     = [(''/incidents'', ''GET'', JUndefined), (''/incidents'', ''GET'', JUndefined)]
   \<and> fst (processRequest_start 1000
          \<lparr> p_url = Some ''/incidents'', p_method = Some ''GET'', p_body = JUndefined,
          p_headers = None, p_useCache = JBool True, p_cacheTTL = None, p_pattern = None,
          p_olderThan = JUndefined \<rparr>
          \<lparr> apiCache = [], fetch_log = [] \<rparr>)
       = Inr \<lparr> f_cacheKey = ''GET:/incidents'', f_method = ''GET'', f_useCache = JBool True \<rparr>
   \<and> fetch_log (snd (processRequest_start 1006
          \<lparr> p_url = Some ''/incidents'', p_method = Some ''GET'', p_body = JUndefined,
          p_headers = None, p_useCache = JBool True, p_cacheTTL = None, p_pattern = None,
          p_olderThan = JUndefined \<rparr>
          (snd (processRequest_body 1005
            \<lparr> f_cacheKey = ''GET:/incidents'', f_method = ''GET'', f_useCache = JBool True \<rparr>
            \<lparr> resp_ok = False, resp_status = 500, resp_statusText = ''Internal Server Error'',
             resp_headers = [], resp_contentType = None, resp_json = Inl ''no json'',
             resp_text = ''error'' \<rparr> 5
            (snd (processRequest_start 1000
              \<lparr> p_url = Some ''/incidents'', p_method = Some ''GET'', p_body = JUndefined,
          p_headers = None, p_useCache = JBool True, p_cacheTTL = None, p_pattern = None,
          p_olderThan = JUndefined \<rparr>
              \<lparr> apiCache = [], fetch_log = [] \<rparr>))))))
     = [(''/incidents'', ''GET'', JUndefined), (''/incidents'', ''GET'', JUndefined)]
   \<and> resp_ok \<lparr> resp_ok = True, resp_status = 200, resp_statusText = ''OK'', resp_headers = [],
             resp_contentType = Some ''application/json'',
             resp_json = Inl ''Unexpected end of JSON input'', resp_text = [] \<rparr>
   \<and> apiCache (snd (processRequest_body 1005
            \<lparr> f_cacheKey = ''GET:/incidents'', f_method = ''GET'', f_useCache = JBool True \<rparr>
            \<lparr> resp_ok = True, resp_status = 200, resp_statusText = ''OK'', resp_headers = [],
             resp_contentType = Some ''application/json'',
             resp_json = Inl ''Unexpected end of JSON input'', resp_text = [] \<rparr> 5
            (snd (processRequest_start 1000
              \<lparr> p_url = Some ''/incidents'', p_method = Some ''GET'', p_body = JUndefined,
          p_headers = None, p_useCache = JBool True, p_cacheTTL = None, p_pattern = None,
          p_olderThan = JUndefined \<rparr>
              \<lparr> apiCache = [], fetch_log = [] \<rparr>))))
     = []
   \<and> fetch_log (snd (processRequest_start 1006
          \<lparr> p_url = Some ''/incidents'', p_method = Some ''GET'', p_body = JUndefined,
          p_headers = None, p_useCache = JBool True, p_cacheTTL = None, p_pattern = None,
          p_olderThan = JUndefined \<rparr>
          (snd (processRequest_body 1005
            \<lparr> f_cacheKey = ''GET:/incidents'', f_method = ''GET'', f_useCache = JBool True \<rparr>
            \<lparr> resp_ok = True, resp_status = 200, resp_statusText = ''OK'', resp_headers = [],
             resp_contentType = Some ''application/json'',
             resp_json = Inl ''Unexpected end of JSON input'', resp_text = [] \<rparr> 5
            (snd (processRequest_start 1000
              \<lparr> p_url = Some ''/incidents'', p_method = Some ''GET'', p_body = JUndefined,
          p_headers = None, p_useCache = JBool True, p_cacheTTL = None, p_pattern = None,
          p_olderThan = JUndefined \<rparr>
              \<lparr> apiCache = [], fetch_log = [] \<rparr>))))))
     = [(''/incidents'', ''GET'', JUndefined), (''/incidents'', ''GET'', JUndefined)]
   \<and> (1006::int) - 1005 < 300000"
  by (simp add: processRequest_start_def processRequest_body_def read_body_def url_text_def
        default_param_def cache_has_def starts_with_def Let_def)

subsection \<open>\<open>purgeCache\<close>\<close>

lemma cache_delete_filter: "cache_delete k c = filter (\<lambda>(k', e). k' \<noteq> k) c"
  by (induction c) (auto simp: cache_delete_def)

lemma purge_where_general:
  "purge_where test es cache purged =
     (purged @ map fst (filter (\<lambda>(k, e). test k e) es),
      filter (\<lambda>(k, e). k \<notin> fst ` set (filter (\<lambda>(k, e). test k e) es)) cache)"
proof (induction es arbitrary: cache purged)
  case Nil
  then show ?case by simp
next
  case (Cons x es)
  obtain k e where x: "x = (k, e)" by (cases x)
  show ?case
  proof (cases "test k e")
    case True
    have "filter (\<lambda>(k', e'). k' \<notin> fst ` set (filter (\<lambda>(k, e). test k e) es))
            (filter (\<lambda>(k', e'). k' \<noteq> k) cache)
        = filter (\<lambda>(k', e'). k' \<notin> insert k (fst ` set (filter (\<lambda>(k, e). test k e) es))) cache"
      by (induction cache) auto
    with True show ?thesis by (simp add: x Cons.IH cache_delete_filter)
  next
    case False
    then show ?thesis by (simp add: x Cons.IH)
  qed
qed

lemma purge_where_self:
  assumes "distinct (map fst cache)"
  shows "purge_where test cache cache [] =
           (map fst (filter (\<lambda>(k, e). test k e) cache), filter (\<lambda>(k, e). \<not> test k e) cache)"
proof -
  have "filter (\<lambda>(k, e). k \<notin> fst ` set (filter (\<lambda>(k, e). test k e) cache)) cache
          = filter (\<lambda>(k, e). \<not> test k e) cache"
  proof (rule filter_cong[OF refl])
    fix x assume xin: "x \<in> set cache"
    obtain k e where x: "x = (k, e)" by (cases x)
    have "k \<in> fst ` set (filter (\<lambda>(k, e). test k e) cache) \<longleftrightarrow> test k e"
    proof
      assume "k \<in> fst ` set (filter (\<lambda>(k, e). test k e) cache)"
      then obtain e' where e': "(k, e') \<in> set cache" "test k e'" by auto
      from assms e'(1) xin x have "e' = e" by (meson eq_key_imp_eq_value)
      with e' show "test k e" by simp
    next
      assume "test k e"
      with xin x show "k \<in> fst ` set (filter (\<lambda>(k, e). test k e) cache)" by force
    qed
    then show "(case x of (k, e) \<Rightarrow> k \<notin> fst ` set (filter (\<lambda>(k, e). test k e) cache))
             = (case x of (k, e) \<Rightarrow> \<not> test k e)"
      by (simp add: x)
  qed
  then show ?thesis by (simp add: purge_where_general)
qed

lemma map_fst_filter_key:
  "map fst (filter (\<lambda>(k, e). t k) cache) = filter t (map fst cache)"
  by (induction cache) auto

text \<open>
  Claim C6, as amended. For a cache with distinct keys, exactly one of four modes applies,
  in the order url, pattern, olderThan, full clear, each tried when the options before it
  are absent or falsy. With a non-empty \<open>url\<close> only the entry under \<open>GET:url\<close> is removed,
  every other entry stays in place, and the returned list is that one key, whether or not
  the cache held it. With a non-empty \<open>pattern\<close> that compiles, the entries whose key
  matches are removed and their keys returned (a pattern that does not compile throws).
  With a non-zero number \<open>olderThan\<close>, the entries older than \<open>now - olderThan\<close> are
  removed and their keys returned. Otherwise the cache is emptied and all its keys are
  returned. In the last three modes the returned list is exactly the evicted keys.
\<close>

theorem purgeCache_modes:
  assumes d: "distinct (cache_keys cache)"
  shows "(\<forall>u. p_url options = Some u \<longrightarrow> u \<noteq> [] \<longrightarrow>
            purgeCache regexp now options cache =
              Inr ([''GET:'' @ u], filter (\<lambda>(k, e). k \<noteq> ''GET:'' @ u) cache))
       \<and> (\<forall>p. (p_url options = None \<or> p_url options = Some []) \<longrightarrow>
            p_pattern options = Some p \<longrightarrow> p \<noteq> [] \<longrightarrow>
            purgeCache regexp now options cache =
              (case regexp p of
                 None \<Rightarrow> Inl SyntaxError
               | Some t \<Rightarrow> Inr (filter t (cache_keys cache), filter (\<lambda>(k, e). \<not> t k) cache)))
       \<and> (\<forall>n. (p_url options = None \<or> p_url options = Some []) \<longrightarrow>
            (p_pattern options = None \<or> p_pattern options = Some []) \<longrightarrow>
            p_olderThan options = JNum n \<longrightarrow> n \<noteq> 0 \<longrightarrow>
            purgeCache regexp now options cache =
              Inr (map fst (filter (\<lambda>(k, e). timestamp e < now - n) cache),
                   filter (\<lambda>(k, e). \<not> timestamp e < now - n) cache))
       \<and> ((p_url options = None \<or> p_url options = Some []) \<longrightarrow>
            (p_pattern options = None \<or> p_pattern options = Some []) \<longrightarrow>
            (\<forall>n. p_olderThan options = JNum n \<longrightarrow> n = 0) \<longrightarrow>
            purgeCache regexp now options cache = Inr (cache_keys cache, []))"
proof (intro conjI allI impI)
  fix u assume "p_url options = Some u" "u \<noteq> []"
  then show "purgeCache regexp now options cache =
              Inr ([''GET:'' @ u], filter (\<lambda>(k, e). k \<noteq> ''GET:'' @ u) cache)"
    by (simp add: purgeCache_def Let_def cache_delete_filter)
next
  fix p assume u: "p_url options = None \<or> p_url options = Some []"
    and p: "p_pattern options = Some p" "p \<noteq> []"
  from u have u': "(case p_url options of None \<Rightarrow> None | Some u \<Rightarrow> if u = [] then None else Some u) = None"
    by auto
  from d have d': "distinct (map fst cache)" by (simp add: cache_keys_def)
  show "purgeCache regexp now options cache =
              (case regexp p of
                 None \<Rightarrow> Inl SyntaxError
               | Some t \<Rightarrow> Inr (filter t (cache_keys cache), filter (\<lambda>(k, e). \<not> t k) cache))"
    using p
    by (simp add: purgeCache_def u' purge_where_self[OF d'] map_fst_filter_key cache_keys_def
          split: option.splits)
next
  fix n assume u: "p_url options = None \<or> p_url options = Some []"
    and p: "p_pattern options = None \<or> p_pattern options = Some []"
    and o: "p_olderThan options = JNum n" "n \<noteq> 0"
  from u have u': "(case p_url options of None \<Rightarrow> None | Some u \<Rightarrow> if u = [] then None else Some u) = None"
    by auto
  from p have p': "(case p_pattern options of None \<Rightarrow> None | Some p \<Rightarrow> if p = [] then None else Some p) = None"
    by auto
  from d have d': "distinct (map fst cache)" by (simp add: cache_keys_def)
  show "purgeCache regexp now options cache =
              Inr (map fst (filter (\<lambda>(k, e). timestamp e < now - n) cache),
                   filter (\<lambda>(k, e). \<not> timestamp e < now - n) cache)"
    using o by (simp add: purgeCache_def u' p' Let_def purge_where_self[OF d'])
next
  assume u: "p_url options = None \<or> p_url options = Some []"
    and p: "p_pattern options = None \<or> p_pattern options = Some []"
    and o: "\<forall>n. p_olderThan options = JNum n \<longrightarrow> n = 0"
  from u have u': "(case p_url options of None \<Rightarrow> None | Some u \<Rightarrow> if u = [] then None else Some u) = None"
    by auto
  from p have p': "(case p_pattern options of None \<Rightarrow> None | Some p \<Rightarrow> if p = [] then None else Some p) = None"
    by auto
  show "purgeCache regexp now options cache = Inr (cache_keys cache, [])"
    using o by (simp add: purgeCache_def u' p' split: jsval.splits)
qed

text \<open>Witness for C6: purging one URL, then everything, on a cache of two entries.\<close>

theorem purgeCache_modes_witness:
  "distinct (cache_keys [(''GET:/a'', \<lparr> timestamp = 1, data = JNull \<rparr>),
                         (''GET:/b'', \<lparr> timestamp = 2, data = JNull \<rparr>)])
   \<and> purgeCache (\<lambda>p. None) 10 (no_fields\<lparr> p_url := Some ''/a'' \<rparr>)
        [(''GET:/a'', \<lparr> timestamp = 1, data = JNull \<rparr>),
         (''GET:/b'', \<lparr> timestamp = 2, data = JNull \<rparr>)]
       = Inr ([''GET:/a''], [(''GET:/b'', \<lparr> timestamp = 2, data = JNull \<rparr>)])
   \<and> purgeCache (\<lambda>p. None) 10 no_fields
        [(''GET:/a'', \<lparr> timestamp = 1, data = JNull \<rparr>),
         (''GET:/b'', \<lparr> timestamp = 2, data = JNull \<rparr>)]
       = Inr ([''GET:/a'', ''GET:/b''], [])"
proof -
  let ?c = "[(''GET:/a'', \<lparr> timestamp = 1, data = JNull \<rparr>),
             (''GET:/b'', \<lparr> timestamp = 2, data = JNull \<rparr>)]"
  have d: "distinct (cache_keys ?c)" by (simp add: cache_keys_def)
  have u: "p_url (no_fields\<lparr> p_url := Some ''/a'' \<rparr>) = Some ''/a''" by simp
  from purgeCache_modes[OF d, of "no_fields\<lparr> p_url := Some ''/a'' \<rparr>" "\<lambda>p. None" 10] u
  have a: "purgeCache (\<lambda>p. None) 10 (no_fields\<lparr> p_url := Some ''/a'' \<rparr>) ?c
       = Inr ([''GET:'' @ ''/a''], filter (\<lambda>(k, e). k \<noteq> ''GET:'' @ ''/a'') ?c)"
    by blast
  have n: "p_url no_fields = None" "p_pattern no_fields = None" "p_olderThan no_fields = JUndefined"
    by (simp_all add: no_fields_def)
  from purgeCache_modes[OF d, of no_fields "\<lambda>p. None" 10] n
  have b: "purgeCache (\<lambda>p. None) 10 no_fields ?c = Inr (cache_keys ?c, [])"
    by simp
  from d a b show ?thesis by (simp add: cache_keys_def)
qed

text \<open>
  Counterexample to C6 as stated: purging the URL \<open>/x\<close> from an empty cache returns the
  key \<open>GET:/x\<close>, although nothing was evicted.
\<close>

theorem purgeCache_url_reports_absent_key:
  "purgeCache (\<lambda>p. None) 10 (no_fields\<lparr> p_url := Some ''/x'' \<rparr>) [] = Inr ([''GET:/x''], [])"
  by (simp add: purgeCache_def no_fields_def cache_delete_def)

section \<open>Properties of the worker bridge\<close>

subsection \<open>Message ids\<close>

lemma digit_char_in: "d < 10 \<Longrightarrow> digit_char d \<in> set ''0123456789''"
  using digit_cases[of d] by (auto simp: digit_char_def)

lemma show_nat_digits: "set (show_nat n) \<subseteq> set ''0123456789''"
proof (induction n rule: show_nat.induct)
  case (1 n)
  show ?case
  proof (cases "n < 10")
    case True
    then show ?thesis using digit_char_in[of n] by (subst show_nat.simps) simp
  next
    case False
    have "n mod 10 < 10" by simp
    from digit_char_in[OF this] 1[OF False] False show ?thesis
      by (subst show_nat.simps) simp
  qed
qed

lemma underscore_not_in_show_nat: "CHR ''_'' \<notin> set (show_nat n)"
  using show_nat_digits[of n] by auto

lemma show_nat_nonempty: "show_nat n \<noteq> []"
  by (subst show_nat.simps) simp

lemma digit_char_inj: "a < 10 \<Longrightarrow> b < 10 \<Longrightarrow> digit_char a = digit_char b \<Longrightarrow> a = b"
proof -
  assume a: "a < 10" and b: "b < 10" and e: "digit_char a = digit_char b"
  from e have "(of_char (digit_char a) :: nat) = of_char (digit_char b)" by simp
  with a b show "a = b" by (simp add: of_char_digit_char)
qed

lemma show_nat_inj: "show_nat m = show_nat n \<Longrightarrow> m = n"
proof (induction m arbitrary: n rule: show_nat.induct)
  case (1 m)
  show ?case
  proof (cases "m < 10")
    case m: True
    show ?thesis
    proof (cases "n < 10")
      case True
      from "1.prems" m True have "digit_char m = digit_char n"
        by (simp add: show_nat.simps[of m] show_nat.simps[of n])
      with m True show ?thesis by (rule digit_char_inj)
    next
      case False
      from "1.prems" m False have "[digit_char m] = show_nat (n div 10) @ [digit_char (n mod 10)]"
        by (simp add: show_nat.simps[of m] show_nat.simps[of n])
      then have "show_nat (n div 10) = []" by simp
      with show_nat_nonempty show ?thesis by blast
    qed
  next
    case m: False
    show ?thesis
    proof (cases "n < 10")
      case True
      from "1.prems" m True have "show_nat (m div 10) @ [digit_char (m mod 10)] = [digit_char n]"
        by (simp add: show_nat.simps[of m] show_nat.simps[of n])
      then have "show_nat (m div 10) = []" by simp
      with show_nat_nonempty show ?thesis by blast
    next
      case False
      from "1.prems" m False
      have "show_nat (m div 10) @ [digit_char (m mod 10)] = show_nat (n div 10) @ [digit_char (n mod 10)]"
        by (simp add: show_nat.simps[of m] show_nat.simps[of n])
      then have e1: "show_nat (m div 10) = show_nat (n div 10)"
        and e2: "digit_char (m mod 10) = digit_char (n mod 10)" by simp_all
      from "1.IH"[OF m e1] have d: "m div 10 = n div 10" .
      have "m mod 10 = n mod 10" using e2 by (intro digit_char_inj) simp_all
      with d show ?thesis by (metis div_mult_mod_eq)
    qed
  qed
qed

lemma suffix_after_last_sep:
  assumes "xs @ c # ys = xs' @ c # ys'" and "c \<notin> set ys" and "c \<notin> set ys'"
  shows "ys = ys'"
proof -
  from assms(1) have "rev (xs @ c # ys) = rev (xs' @ c # ys')" by simp
  then have "rev ys @ c # rev xs = rev ys' @ c # rev xs'" by simp
  then have "takeWhile (\<lambda>x. x \<noteq> c) (rev ys @ c # rev xs)
           = takeWhile (\<lambda>x. x \<noteq> c) (rev ys' @ c # rev xs')" by simp
  moreover have "takeWhile (\<lambda>x. x \<noteq> c) (rev zs @ c # ws) = rev zs" if "c \<notin> set zs" for zs ws
  proof -
    have "takeWhile (\<lambda>x. x \<noteq> c) (rev zs @ c # ws) = takeWhile (\<lambda>x. x \<noteq> c) (rev zs)"
      by (rule takeWhile_tail) simp
    also have "\<dots> = rev zs" using that by (auto simp: takeWhile_eq_all_conv)
    finally show ?thesis .
  qed
  note this[OF assms(2), of "rev xs"] this[OF assms(3), of "rev xs'"]
  ultimately show ?thesis by simp
qed

lemma generateMessageId_inj:
  assumes "generateMessageId now c = generateMessageId now' c'"
  shows "c = c'"
proof -
  from assms have "(''msg_'' @ show_nat now) @ CHR ''_'' # show_nat c
                 = (''msg_'' @ show_nat now') @ CHR ''_'' # show_nat c'"
    by (simp add: generateMessageId_def)
  then have "show_nat c = show_nat c'"
    by (rule suffix_after_last_sep[OF _ underscore_not_in_show_nat underscore_not_in_show_nat])
  then show ?thesis by (rule show_nat_inj)
qed

lemma generateMessageId_nonempty: "generateMessageId now c \<noteq> []"
  by (simp add: generateMessageId_def)

lemma show_nat_1000: "show_nat 1000 = ''1000''"
  by (simp add: show_nat.simps digit_char_def)

lemma show_nat_0: "show_nat 0 = ''0''"
  by (simp add: show_nat.simps digit_char_def)

lemma id0: "generateMessageId 1000 0 = ''msg_1000_0''"
  by (simp add: generateMessageId_def show_nat_1000 show_nat_0)

lemma starts_with_generated:
  "starts_with (generateMessageId now c) (name @ ''_'') \<Longrightarrow> hd name = CHR ''m''"
  by (cases name) (auto simp: starts_with_def generateMessageId_def)

lemma clean_callbacks_keeps:
  assumes "\<forall>(i, cb)\<in>set rest. \<not> starts_with i (name @ ''_'')"
  shows "clean_callbacks name rest pending = pending"
  using assms by (induction rest arbitrary: pending) auto

lemma id1: "generateMessageId 1000 (Suc 0) = ''msg_1000_1''"
  by (simp add: generateMessageId_def show_nat_1000 show_nat.simps[of "Suc 0"] digit_char_def)

lemma terminateWorker_keeps_generated:
  assumes "hd name \<noteq> CHR ''m''"
      and "\<forall>e\<in>set (pendingCallbacks b). \<exists>now c. fst e = generateMessageId now c"
  shows "pendingCallbacks (terminateWorker name b) = pendingCallbacks b"
proof (cases "map_of (workers b) name")
  case None
  then show ?thesis by (simp add: terminateWorker_def)
next
  case (Some w)
  have "\<forall>(i, cb)\<in>set (pendingCallbacks b). \<not> starts_with i (name @ ''_'')"
    using assms starts_with_generated by fastforce
  then have "clean_callbacks name (pendingCallbacks b) (pendingCallbacks b) = pendingCallbacks b"
    by (rule clean_callbacks_keeps)
  with Some show ?thesis by (simp add: terminateWorker_def)
qed

text \<open>
  Claim C5, evaluated on the code. The worker \<open>api\<close> is initialised, one request is sent
  to it at clock reading 1000, and the worker is terminated: its registry entry is gone, but
  the pending entry \<open>msg_1000_0\<close> of its request is still registered. The loop of
  \<open>terminateWorker\<close> removes the ids that start with \<open>api_\<close>, and no id made by
  \<open>generateMessageId\<close> does (lemma \<open>terminateWorker_keeps_generated\<close>).
\<close>

theorem terminateWorker_keeps_pending:
  "workers (terminateWorker ''api''
      (snd (sendToWorker ''api'' ''request'' (JObj []) 1000 (initWorker ''api'' True new_bridge)))) = []
   \<and> pendingCallbacks (snd (sendToWorker ''api'' ''request'' (JObj []) 1000
        (initWorker ''api'' True new_bridge))) = [(''msg_1000_0'', 0)]
   \<and> pendingCallbacks (terminateWorker ''api''
      (snd (sendToWorker ''api'' ''request'' (JObj []) 1000 (initWorker ''api'' True new_bridge))))
     = [(''msg_1000_0'', 0)]"
  by (simp add: terminateWorker_def sendToWorker_def initWorker_def new_bridge_def Let_def id0
        starts_with_def)

subsection \<open>The invariant is kept\<close>

lemma generated_mono: "generated s n \<Longrightarrow> n \<le> m \<Longrightarrow> generated s m"
proof -
  assume "generated s n" and le: "n \<le> m"
  then obtain now c where "c < n" and s: "s = generateMessageId now c"
    unfolding generated_def by blast
  with le have "c < m" by simp
  with s show ?thesis unfolding generated_def by blast
qed

lemma generated_fresh: "generated s n \<Longrightarrow> s \<noteq> generateMessageId now n"
  by (auto simp: generated_def dest: generateMessageId_inj)

lemma generated_new: "generated (generateMessageId now n) (Suc n)"
  by (auto simp: generated_def)

lemma bridge_inv_new: "bridge_inv new_bridge"
  by (simp add: bridge_inv_def new_bridge_def)


lemma bridge_invD:
  assumes "bridge_inv b"
  shows "\<And>s p. (s, p) \<in> set (pendingCallbacks b) \<Longrightarrow> generated s (messageIdCounter b)"
    and "\<And>s p. (s, p) \<in> set (pendingCallbacks b) \<Longrightarrow> p < next_promise b"
    and "distinct (map fst (pendingCallbacks b))"
    and "distinct (map snd (pendingCallbacks b))"
    and "distinct (map fst (settled b))"
    and "\<And>p r. (p, r) \<in> set (settled b) \<Longrightarrow> p < next_promise b"
    and "\<And>p r. (p, r) \<in> set (settled b) \<Longrightarrow> p \<notin> snd ` set (pendingCallbacks b)"
    and "\<And>w s a pl. (w, s, a, pl) \<in> set (posted b) \<Longrightarrow> generated s (messageIdCounter b)"
    and "distinct (map (\<lambda>m. fst (snd m)) (posted b))"
    and "\<And>s p n. (s, p, n) \<in> set (timers b) \<Longrightarrow> generated s (messageIdCounter b)"
    and "\<And>s p n p'. (s, p, n) \<in> set (timers b) \<Longrightarrow> (s, p') \<in> set (pendingCallbacks b) \<Longrightarrow> p' = p"
proof -
  from assms have 1: "\<forall>e\<in>set (pendingCallbacks b).
          generated (fst e) (messageIdCounter b) \<and> snd e < next_promise b"
    and 5: "\<forall>e\<in>set (settled b).
            fst e < next_promise b \<and> fst e \<notin> snd ` set (pendingCallbacks b)"
    and 6: "\<forall>m\<in>set (posted b). generated (fst (snd m)) (messageIdCounter b)"
    and 8: "\<forall>t\<in>set (timers b).
            generated (fst t) (messageIdCounter b) \<and>
            (\<forall>p'. (fst t, p') \<in> set (pendingCallbacks b) \<longrightarrow> p' = fst (snd t))"
    unfolding bridge_inv_def by simp_all
  show "generated s (messageIdCounter b)" if "(s, p) \<in> set (pendingCallbacks b)" for s p
    using 1[rule_format, OF that] by simp
  show "p < next_promise b" if "(s, p) \<in> set (pendingCallbacks b)" for s p
    using 1[rule_format, OF that] by simp
  show "distinct (map fst (pendingCallbacks b))" "distinct (map snd (pendingCallbacks b))"
    "distinct (map fst (settled b))" "distinct (map (\<lambda>m. fst (snd m)) (posted b))"
    using assms unfolding bridge_inv_def by simp_all
  show "p < next_promise b" if "(p, r) \<in> set (settled b)" for p r
    using 5[rule_format, OF that] by simp
  show "p \<notin> snd ` set (pendingCallbacks b)" if "(p, r) \<in> set (settled b)" for p r
    using 5[rule_format, OF that] by simp
  show "generated s (messageIdCounter b)" if "(w, s, a, pl) \<in> set (posted b)" for w s a pl
    using 6[rule_format, OF that] by simp
  show "generated s (messageIdCounter b)" if "(s, p, n) \<in> set (timers b)" for s p n
    using 8[rule_format, OF that] by simp
  show "p' = p" if "(s, p, n) \<in> set (timers b)" "(s, p') \<in> set (pendingCallbacks b)" for s p n p'
    using 8[rule_format, OF that(1)] that(2) by simp
qed

lemma bridge_invI:
  assumes 1: "\<And>s p. (s, p) \<in> set (pendingCallbacks b) \<Longrightarrow> generated s (messageIdCounter b)"
    and 2: "\<And>s p. (s, p) \<in> set (pendingCallbacks b) \<Longrightarrow> p < next_promise b"
    and 3: "distinct (map fst (pendingCallbacks b))"
    and 4: "distinct (map snd (pendingCallbacks b))"
    and 5: "distinct (map fst (settled b))"
    and 6: "\<And>p r. (p, r) \<in> set (settled b) \<Longrightarrow> p < next_promise b"
    and 7: "\<And>p r. (p, r) \<in> set (settled b) \<Longrightarrow> p \<notin> snd ` set (pendingCallbacks b)"
    and 8: "\<And>w s a pl. (w, s, a, pl) \<in> set (posted b) \<Longrightarrow> generated s (messageIdCounter b)"
    and 9: "distinct (map (\<lambda>m. fst (snd m)) (posted b))"
    and 10: "\<And>s p n. (s, p, n) \<in> set (timers b) \<Longrightarrow> generated s (messageIdCounter b)"
    and 11: "\<And>s p n p'. (s, p, n) \<in> set (timers b) \<Longrightarrow> (s, p') \<in> set (pendingCallbacks b) \<Longrightarrow> p' = p"
  shows "bridge_inv b"
proof -
  have a: "\<forall>e\<in>set (pendingCallbacks b).
          generated (fst e) (messageIdCounter b) \<and> snd e < next_promise b"
  proof
    fix e assume "e \<in> set (pendingCallbacks b)"
    then have "(fst e, snd e) \<in> set (pendingCallbacks b)" by simp
    from 1[OF this] 2[OF this]
    show "generated (fst e) (messageIdCounter b) \<and> snd e < next_promise b" by simp
  qed
  have b: "\<forall>e\<in>set (settled b).
            fst e < next_promise b \<and> fst e \<notin> snd ` set (pendingCallbacks b)"
  proof
    fix e assume "e \<in> set (settled b)"
    then have "(fst e, snd e) \<in> set (settled b)" by simp
    from 6[OF this] 7[OF this]
    show "fst e < next_promise b \<and> fst e \<notin> snd ` set (pendingCallbacks b)" by simp
  qed
  have c: "\<forall>m\<in>set (posted b). generated (fst (snd m)) (messageIdCounter b)"
  proof
    fix m assume "m \<in> set (posted b)"
    then have "(fst m, fst (snd m), fst (snd (snd m)), snd (snd (snd m))) \<in> set (posted b)" by simp
    from 8[OF this] show "generated (fst (snd m)) (messageIdCounter b)" .
  qed
  have d: "\<forall>t\<in>set (timers b).
            generated (fst t) (messageIdCounter b) \<and>
            (\<forall>p'. (fst t, p') \<in> set (pendingCallbacks b) \<longrightarrow> p' = fst (snd t))"
  proof
    fix t assume "t \<in> set (timers b)"
    then have t: "(fst t, fst (snd t), snd (snd t)) \<in> set (timers b)" by simp
    from 10[OF t] 11[OF t]
    show "generated (fst t) (messageIdCounter b) \<and>
            (\<forall>p'. (fst t, p') \<in> set (pendingCallbacks b) \<longrightarrow> p' = fst (snd t))" by blast
  qed
  from a 3 4 5 b c 9 d show ?thesis unfolding bridge_inv_def by (intro conjI)
qed

lemma bridge_inv_init: "bridge_inv b \<Longrightarrow> bridge_inv (initWorker name ok b)"
  by (cases ok) (simp_all add: bridge_inv_def initWorker_def)

lemma set_delete_subset: "set (AList.delete s xs) \<subseteq> set xs"
  by (auto simp: AList.delete_eq)

lemma distinct_snd_delete: "distinct (map snd xs) \<Longrightarrow> distinct (map snd (AList.delete s xs))"
  by (simp add: AList.delete_eq distinct_map_filter)

lemma delete_other_val:
  assumes d2: "distinct (map snd xs)" and m: "(s, p) \<in> set xs"
  shows "p \<notin> snd ` set (AList.delete s xs)"
proof
  assume "p \<in> snd ` set (AList.delete s xs)"
  then obtain s' where s': "(s', p) \<in> set (AList.delete s xs)" by auto
  then have in2: "(s', p) \<in> set xs" and ne: "s' \<noteq> s" by (auto simp: AList.delete_eq)
  from d2 have "inj_on snd (set xs)" by (simp add: distinct_map)
  from inj_onD[OF this, of "(s, p)" "(s', p)"] m in2 have "s = s'" by simp
  with ne show False by simp
qed

text \<open>Settling the promise that waits under an id.\<close>

lemma bridge_inv_settle:
  assumes inv: "bridge_inv b" and m: "(s, p) \<in> set (pendingCallbacks b)"
  shows "bridge_inv (b\<lparr> pendingCallbacks := AList.delete s (pendingCallbacks b),
                         settled := settled b @ [(p, r)] \<rparr>)"
proof (rule bridge_invI)
  let ?b = "b\<lparr> pendingCallbacks := AList.delete s (pendingCallbacks b),
                 settled := settled b @ [(p, r)] \<rparr>"
  note D = bridge_invD[OF inv]
  have sub: "set (pendingCallbacks ?b) \<subseteq> set (pendingCallbacks b)"
    using set_delete_subset by simp
  have pfresh: "p \<notin> fst ` set (settled b)"
  proof
    assume "p \<in> fst ` set (settled b)"
    then obtain r' where "(p, r') \<in> set (settled b)" by auto
    from D(7)[OF this] m show False by force
  qed
  show "generated s' (messageIdCounter ?b)" if "(s', p') \<in> set (pendingCallbacks ?b)" for s' p'
    using that sub D(1)[of s' p'] by auto
  show "p' < next_promise ?b" if "(s', p') \<in> set (pendingCallbacks ?b)" for s' p'
    using that sub D(2)[of s' p'] by auto
  show "distinct (map fst (pendingCallbacks ?b))" using D(3) by (simp add: distinct_delete)
  show "distinct (map snd (pendingCallbacks ?b))" using D(4) by (simp add: distinct_snd_delete)
  show "distinct (map fst (settled ?b))" using D(5) pfresh by simp
  show "q < next_promise ?b" if "(q, r') \<in> set (settled ?b)" for q r'
    using that D(6)[of q r'] D(2)[OF m] by auto
  show "q \<notin> snd ` set (pendingCallbacks ?b)" if "(q, r') \<in> set (settled ?b)" for q r'
  proof (cases "(q, r') \<in> set (settled b)")
    case True
    from D(7)[OF this] sub show ?thesis by auto
  next
    case False
    with that have "q = p" by simp
    with delete_other_val[OF D(4) m] show ?thesis by simp
  qed
  show "generated s' (messageIdCounter ?b)" if "(w, s', a, pl) \<in> set (posted ?b)" for w s' a pl
    using that D(8)[of w s' a pl] by simp
  show "distinct (map (\<lambda>m. fst (snd m)) (posted ?b))" using D(9) by simp
  show "generated s' (messageIdCounter ?b)" if "(s', p', n) \<in> set (timers ?b)" for s' p' n
    using that D(10)[of s' p' n] by simp
  show "p'' = p'" if "(s', p', n) \<in> set (timers ?b)" "(s', p'') \<in> set (pendingCallbacks ?b)"
    for s' p' n p''
    using that sub D(11)[of s' p' n p''] by auto
qed

text \<open>Dropping timers, and dropping pending entries.\<close>

lemma bridge_inv_timers:
  assumes inv: "bridge_inv b" and sub: "set ts \<subseteq> set (timers b)"
  shows "bridge_inv (b\<lparr> timers := ts \<rparr>)"
proof (rule bridge_invI)
  note D = bridge_invD[OF inv]
  show "generated s' (messageIdCounter (b\<lparr> timers := ts \<rparr>))"
    if "(s', p', n) \<in> set (timers (b\<lparr> timers := ts \<rparr>))" for s' p' n
    using that sub D(10)[of s' p' n] by auto
  show "p'' = p'" if "(s', p', n) \<in> set (timers (b\<lparr> timers := ts \<rparr>))"
      "(s', p'') \<in> set (pendingCallbacks (b\<lparr> timers := ts \<rparr>))" for s' p' n p''
    using that sub D(11)[of s' p' n p''] by auto
qed (use bridge_invD[OF inv] in simp_all)

lemma bridge_inv_filter:
  assumes inv: "bridge_inv b"
  shows "bridge_inv (b\<lparr> pendingCallbacks := filter P (pendingCallbacks b) \<rparr>)"
proof (rule bridge_invI)
  let ?b = "b\<lparr> pendingCallbacks := filter P (pendingCallbacks b) \<rparr>"
  note D = bridge_invD[OF inv]
  have sub: "set (pendingCallbacks ?b) \<subseteq> set (pendingCallbacks b)" by auto
  show "generated s' (messageIdCounter ?b)" if "(s', p') \<in> set (pendingCallbacks ?b)" for s' p'
    using that D(1)[of s' p'] by auto
  show "p' < next_promise ?b" if "(s', p') \<in> set (pendingCallbacks ?b)" for s' p'
    using that D(2)[of s' p'] by auto
  show "distinct (map fst (pendingCallbacks ?b))" using D(3) by (simp add: distinct_map_filter)
  show "distinct (map snd (pendingCallbacks ?b))" using D(4) by (simp add: distinct_map_filter)
  show "distinct (map fst (settled ?b))" using D(5) by simp
  show "q < next_promise ?b" if "(q, r') \<in> set (settled ?b)" for q r'
    using that D(6)[of q r'] by simp
  show "q \<notin> snd ` set (pendingCallbacks ?b)" if "(q, r') \<in> set (settled ?b)" for q r'
  proof -
    from that have "(q, r') \<in> set (settled b)" by simp
    from D(7)[OF this] sub show ?thesis by auto
  qed
  show "generated s' (messageIdCounter ?b)" if "(w, s', a, pl) \<in> set (posted ?b)" for w s' a pl
    using that D(8)[of w s' a pl] by simp
  show "distinct (map (\<lambda>m. fst (snd m)) (posted ?b))" using D(9) by simp
  show "generated s' (messageIdCounter ?b)" if "(s', p', n) \<in> set (timers ?b)" for s' p' n
    using that D(10)[of s' p' n] by simp
  show "p'' = p'" if "(s', p', n) \<in> set (timers ?b)" "(s', p'') \<in> set (pendingCallbacks ?b)"
    for s' p' n p''
    using that D(11)[of s' p' n p''] by auto
qed

lemma bridge_inv_workers:
  "bridge_inv b \<Longrightarrow> bridge_inv (b\<lparr> terminated := t, workers := w \<rparr>)"
  by (simp add: bridge_inv_def)

lemma clean_callbacks_filter:
  "clean_callbacks name rest pending =
     filter (\<lambda>e. fst e \<notin> fst ` {e \<in> set rest. starts_with (fst e) (name @ ''_'')}) pending"
proof (induction rest arbitrary: pending)
  case Nil
  then show ?case by simp
next
  case (Cons x rest)
  obtain i cb where x: "x = (i, cb)" by (cases x)
  show ?case
  proof (cases "starts_with i (name @ ''_'')")
    case True
    have del: "AList.delete i pending = filter (\<lambda>e. fst e \<noteq> i) pending"
      by (induction pending) auto
    have D: "fst ` {e \<in> set (x # rest). starts_with (fst e) (name @ ''_'')}
           = insert i (fst ` {e \<in> set rest. starts_with (fst e) (name @ ''_'')})"
      using True by (force simp: x)
    have "filter (\<lambda>e. fst e \<notin> fst ` {e \<in> set rest. starts_with (fst e) (name @ ''_'')})
            (AList.delete i pending)
        = filter (\<lambda>e. fst e \<notin> fst ` {e \<in> set (x # rest). starts_with (fst e) (name @ ''_'')}) pending"
      unfolding del D filter_filter by (rule filter_cong) auto
    with True show ?thesis by (simp add: x Cons.IH del: set_simps)
  next
    case False
    have "{e \<in> set (x # rest). starts_with (fst e) (name @ ''_'')}
        = {e \<in> set rest. starts_with (fst e) (name @ ''_'')}"
      using False by (auto simp: x)
    with False show ?thesis by (simp add: x Cons.IH del: set_simps)
  qed
qed

lemma bridge_inv_terminate: "bridge_inv b \<Longrightarrow> bridge_inv (terminateWorker name b)"
proof -
  assume inv: "bridge_inv b"
  show ?thesis
  proof (cases "map_of (workers b) name")
    case None
    with inv show ?thesis by (simp add: terminateWorker_def)
  next
    case (Some w)
    let ?P = "\<lambda>e. fst e \<notin> fst ` {e \<in> set (pendingCallbacks b). starts_with (fst e) (name @ ''_'')}"
    have "terminateWorker name b =
            (b\<lparr> pendingCallbacks := filter ?P (pendingCallbacks b) \<rparr>)
              \<lparr> terminated := terminated b @ [w], workers := AList.delete name (workers b) \<rparr>"
      by (simp add: terminateWorker_def Some clean_callbacks_filter)
    moreover have "bridge_inv ((b\<lparr> pendingCallbacks := filter ?P (pendingCallbacks b) \<rparr>)
              \<lparr> terminated := terminated b @ [w], workers := AList.delete name (workers b) \<rparr>)"
      by (intro bridge_inv_workers bridge_inv_filter inv)
    ultimately show ?thesis by simp
  qed
qed

lemma bridge_inv_fold_terminate: "bridge_inv b \<Longrightarrow> bridge_inv (fold terminateWorker names b)"
  by (induction names arbitrary: b) (simp_all add: bridge_inv_terminate)

lemma bridge_inv_terminate_all: "bridge_inv b \<Longrightarrow> bridge_inv (terminateAllWorkers b)"
proof -
  assume inv: "bridge_inv b"
  let ?b = "fold terminateWorker (map fst (workers b)) b"
  have "bridge_inv (?b\<lparr> pendingCallbacks := filter (\<lambda>e. False) (pendingCallbacks ?b) \<rparr>)"
    by (intro bridge_inv_filter bridge_inv_fold_terminate inv)
  then show ?thesis by (simp add: terminateAllWorkers_def)
qed

lemma bridge_inv_inbound: "bridge_inv b \<Longrightarrow> bridge_inv (on_worker_message ty i result b)"
proof -
  assume inv: "bridge_inv b"
  show ?thesis
  proof (cases "ty \<noteq> JStr ''init'' \<and> truthy i \<and> (\<exists>s cb. i = JStr s \<and> map_of (pendingCallbacks b) s = Some cb)")
    case True
    then obtain s cb where i: "i = JStr s" and m: "map_of (pendingCallbacks b) s = Some cb"
      and ty: "ty \<noteq> JStr ''init''" and t: "truthy i" by blast
    from m have "(s, cb) \<in> set (pendingCallbacks b)" by (rule map_of_SomeD)
    from bridge_inv_settle[OF inv this, of "Resolved result"] i m ty t
    show ?thesis by (simp add: on_worker_message_def)
  next
    case False
    then have "on_worker_message ty i result b = b"
      by (auto simp: on_worker_message_def split: jsval.splits option.splits)
    with inv show ?thesis by simp
  qed
qed

lemma bridge_inv_timer: "bridge_inv b \<Longrightarrow> bridge_inv (timer_fires i b)"
proof -
  assume inv: "bridge_inv b"
  show ?thesis
  proof (cases "i < length (timers b)")
    case False
    with inv show ?thesis by (simp add: timer_fires_def)
  next
    case True
    obtain s p n where t: "timers b ! i = (s, p, n)" by (cases "timers b ! i")
    let ?b0 = "b\<lparr> timers := take i (timers b) @ drop (Suc i) (timers b) \<rparr>"
    have "set (take i (timers b) @ drop (Suc i) (timers b)) \<subseteq> set (timers b)"
      using set_take_subset set_drop_subset by fastforce
    with inv have inv0: "bridge_inv ?b0" by (rule bridge_inv_timers)
    from True t have tin: "(s, p, n) \<in> set (timers b)" by (metis nth_mem)
    show ?thesis
    proof (cases "map_of (pendingCallbacks b) s")
      case None
      with True t inv0 show ?thesis by (simp add: timer_fires_def Let_def)
    next
      case (Some p')
      then have pin: "(s, p') \<in> set (pendingCallbacks b)" by (rule map_of_SomeD)
      from bridge_invD(11)[OF inv tin pin] have "p' = p" .
      with pin have "(s, p) \<in> set (pendingCallbacks ?b0)" by simp
      from bridge_inv_settle[OF inv0 this, of "Rejected (Error (timeout_message n))"] True t Some
      show ?thesis by (simp add: timer_fires_def Let_def)
    qed
  qed
qed

lemma sendToWorker_missing:
  assumes "map_of (workers b) name = None"
  shows "sendToWorker name action payload now b =
     (next_promise b,
      b\<lparr> next_promise := next_promise b + 1,
          settled := settled b @ [(next_promise b, Rejected (Error (not_initialized_message name)))] \<rparr>)"
  using assms by (simp add: sendToWorker_def Let_def)

lemma sendToWorker_registered:
  assumes "map_of (workers b) name = Some w"
  shows "sendToWorker name action payload now b =
     (next_promise b,
      b\<lparr> next_promise := next_promise b + 1,
          messageIdCounter := messageIdCounter b + 1,
          pendingCallbacks := AList.update (generateMessageId now (messageIdCounter b))
                                (next_promise b) (pendingCallbacks b),
          posted := posted b @ [(w, generateMessageId now (messageIdCounter b), action, payload)],
          timers := timers b @ [(generateMessageId now (messageIdCounter b), next_promise b, name)] \<rparr>)"
  using assms by (simp add: sendToWorker_def Let_def)

lemma fresh_id_not_pending:
  assumes inv: "bridge_inv b"
  shows "generateMessageId now (messageIdCounter b) \<notin> fst ` set (pendingCallbacks b)"
proof
  assume "generateMessageId now (messageIdCounter b) \<in> fst ` set (pendingCallbacks b)"
  then obtain p where "(generateMessageId now (messageIdCounter b), p) \<in> set (pendingCallbacks b)"
    by auto
  from bridge_invD(1)[OF inv this] generated_fresh show False by blast
qed

lemma fresh_id_not_posted:
  assumes inv: "bridge_inv b"
  shows "generateMessageId now (messageIdCounter b) \<notin> (\<lambda>m. fst (snd m)) ` set (posted b)"
proof
  assume "generateMessageId now (messageIdCounter b) \<in> (\<lambda>m. fst (snd m)) ` set (posted b)"
  then obtain w a pl where "(w, generateMessageId now (messageIdCounter b), a, pl) \<in> set (posted b)"
    by force
  from bridge_invD(8)[OF inv this] generated_fresh show False by blast
qed

lemma fresh_id_not_timer:
  assumes inv: "bridge_inv b"
  shows "(generateMessageId now (messageIdCounter b), p, n) \<notin> set (timers b)"
proof
  assume "(generateMessageId now (messageIdCounter b), p, n) \<in> set (timers b)"
  from bridge_invD(10)[OF inv this] generated_fresh show False by blast
qed

lemma fresh_promise_not_pending:
  assumes inv: "bridge_inv b"
  shows "next_promise b \<notin> snd ` set (pendingCallbacks b)"
proof
  assume "next_promise b \<in> snd ` set (pendingCallbacks b)"
  then obtain s where "(s, next_promise b) \<in> set (pendingCallbacks b)" by auto
  from bridge_invD(2)[OF inv this] show False by simp
qed

lemma fresh_promise_not_settled:
  assumes inv: "bridge_inv b"
  shows "next_promise b \<notin> fst ` set (settled b)"
proof
  assume "next_promise b \<in> fst ` set (settled b)"
  then obtain r where "(next_promise b, r) \<in> set (settled b)" by auto
  from bridge_invD(6)[OF inv this] show False by simp
qed

lemma bridge_inv_send_missing:
  assumes inv: "bridge_inv b"
  shows "bridge_inv (b\<lparr> next_promise := next_promise b + 1,
                         settled := settled b @ [(next_promise b, r)] \<rparr>)"
proof (rule bridge_invI)
  let ?b = "b\<lparr> next_promise := next_promise b + 1, settled := settled b @ [(next_promise b, r)] \<rparr>"
  note D = bridge_invD[OF inv]
  show "generated s' (messageIdCounter ?b)" if "(s', p') \<in> set (pendingCallbacks ?b)" for s' p'
    using that D(1)[of s' p'] by simp
  show "p' < next_promise ?b" if "(s', p') \<in> set (pendingCallbacks ?b)" for s' p'
    using that D(2)[of s' p'] by simp
  show "distinct (map fst (pendingCallbacks ?b))" using D(3) by simp
  show "distinct (map snd (pendingCallbacks ?b))" using D(4) by simp
  show "distinct (map fst (settled ?b))" using D(5) fresh_promise_not_settled[OF inv] by simp
  show "q < next_promise ?b" if "(q, r') \<in> set (settled ?b)" for q r'
    using that D(6)[of q r'] by auto
  show "q \<notin> snd ` set (pendingCallbacks ?b)" if "(q, r') \<in> set (settled ?b)" for q r'
  proof (cases "(q, r') \<in> set (settled b)")
    case True
    from D(7)[OF this] show ?thesis by simp
  next
    case False
    with that have "q = next_promise b" by simp
    with fresh_promise_not_pending[OF inv] show ?thesis by simp
  qed
  show "generated s' (messageIdCounter ?b)" if "(w, s', a, pl) \<in> set (posted ?b)" for w s' a pl
    using that D(8)[of w s' a pl] by simp
  show "distinct (map (\<lambda>m. fst (snd m)) (posted ?b))" using D(9) by simp
  show "generated s' (messageIdCounter ?b)" if "(s', p', n) \<in> set (timers ?b)" for s' p' n
    using that D(10)[of s' p' n] by simp
  show "p'' = p'" if "(s', p', n) \<in> set (timers ?b)" "(s', p'') \<in> set (pendingCallbacks ?b)"
    for s' p' n p''
    using that D(11)[of s' p' n p''] by simp
qed

lemma bridge_inv_send_registered:
  assumes inv: "bridge_inv b"
  shows "bridge_inv (b\<lparr> next_promise := next_promise b + 1,
          messageIdCounter := messageIdCounter b + 1,
          pendingCallbacks := pendingCallbacks b @
             [(generateMessageId now (messageIdCounter b), next_promise b)],
          posted := posted b @ [(w, generateMessageId now (messageIdCounter b), action, payload)],
          timers := timers b @ [(generateMessageId now (messageIdCounter b), next_promise b, name)] \<rparr>)"
proof (rule bridge_invI)
  let ?m = "generateMessageId now (messageIdCounter b)"
  let ?b = "b\<lparr> next_promise := next_promise b + 1,
          messageIdCounter := messageIdCounter b + 1,
          pendingCallbacks := pendingCallbacks b @ [(?m, next_promise b)],
          posted := posted b @ [(w, ?m, action, payload)],
          timers := timers b @ [(?m, next_promise b, name)] \<rparr>"
  note D = bridge_invD[OF inv]
  have gm: "generated ?m (Suc (messageIdCounter b))" by (rule generated_new)
  have up: "generated s (Suc (messageIdCounter b))" if "generated s (messageIdCounter b)" for s
    using that by (rule generated_mono) simp
  show "generated s' (messageIdCounter ?b)" if "(s', p') \<in> set (pendingCallbacks ?b)" for s' p'
    using that up[OF D(1)[of s' p']] gm by auto
  show "p' < next_promise ?b" if "(s', p') \<in> set (pendingCallbacks ?b)" for s' p'
    using that D(2)[of s' p'] by auto
  show "distinct (map fst (pendingCallbacks ?b))"
    using D(3) fresh_id_not_pending[OF inv, of now] by simp
  show "distinct (map snd (pendingCallbacks ?b))"
    using D(4) fresh_promise_not_pending[OF inv] by simp
  show "distinct (map fst (settled ?b))" using D(5) by simp
  show "q < next_promise ?b" if "(q, r') \<in> set (settled ?b)" for q r'
    using that D(6)[of q r'] by auto
  show "q \<notin> snd ` set (pendingCallbacks ?b)" if "(q, r') \<in> set (settled ?b)" for q r'
  proof -
    from that have q: "(q, r') \<in> set (settled b)" by simp
    from D(6)[OF q] have "q \<noteq> next_promise b" by simp
    with D(7)[OF q] show ?thesis by auto
  qed
  show "generated s' (messageIdCounter ?b)" if "(w', s', a, pl) \<in> set (posted ?b)" for w' s' a pl
    using that up[OF D(8)[of w' s' a pl]] gm by auto
  show "distinct (map (\<lambda>m. fst (snd m)) (posted ?b))"
    using D(9) fresh_id_not_posted[OF inv, of now] by simp
  show "generated s' (messageIdCounter ?b)" if "(s', p', n) \<in> set (timers ?b)" for s' p' n
    using that up[OF D(10)[of s' p' n]] gm by auto
  show "p'' = p'" if t: "(s', p', n) \<in> set (timers ?b)" and pe: "(s', p'') \<in> set (pendingCallbacks ?b)"
    for s' p' n p''
  proof (cases "s' = ?m")
    case True
    with t fresh_id_not_timer[OF inv, of now] have "p' = next_promise b" by auto
    moreover from True pe fresh_id_not_pending[OF inv, of now] have "p'' = next_promise b"
      by force
    ultimately show ?thesis by simp
  next
    case False
    with t pe D(11)[of s' p' n p''] show ?thesis by auto
  qed
qed

lemma bridge_inv_send: "bridge_inv b \<Longrightarrow> bridge_inv (snd (sendToWorker name action payload now b))"
proof -
  assume inv: "bridge_inv b"
  show ?thesis
  proof (cases "map_of (workers b) name")
    case None
    from bridge_inv_send_missing[OF inv] show ?thesis
      by (simp add: sendToWorker_missing[OF None])
  next
    case (Some w)
    have "AList.update (generateMessageId now (messageIdCounter b)) (next_promise b) (pendingCallbacks b)
            = pendingCallbacks b @ [(generateMessageId now (messageIdCounter b), next_promise b)]"
      using fresh_id_not_pending[OF inv] by (rule update_fresh)
    with bridge_inv_send_registered[OF inv] show ?thesis
      by (simp add: sendToWorker_registered[OF Some])
  qed
qed

lemma bridge_inv_step: "bridge_inv b \<Longrightarrow> bridge_inv (bridge_step b e)"
  by (cases e)
     (simp_all add: bridge_inv_init bridge_inv_send bridge_inv_inbound bridge_inv_timer
        bridge_inv_terminate bridge_inv_terminate_all)

lemma bridge_inv_run: "bridge_inv b \<Longrightarrow> bridge_inv (bridge_run events b)"
  unfolding bridge_run_def by (induction events arbitrary: b) (simp_all add: bridge_inv_step)

lemma on_worker_message_resolves:
  assumes "ty \<noteq> JStr ''init''" and "s \<noteq> []" and "map_of (pendingCallbacks b) s = Some p"
  shows "on_worker_message ty (JStr s) result b =
           b\<lparr> pendingCallbacks := AList.delete s (pendingCallbacks b),
               settled := settled b @ [(p, Resolved result)] \<rparr>"
  using assms by (simp add: on_worker_message_def)

lemma on_worker_message_ignores:
  assumes "\<forall>s. i = JStr s \<longrightarrow> map_of (pendingCallbacks b) s = None"
  shows "on_worker_message ty i result b = b"
  using assms by (cases i) (simp_all add: on_worker_message_def)

lemma timer_fires_removes:
  assumes "i < length (timers b)" and "timers b ! i = (s, p, n)"
  shows "map_of (pendingCallbacks (timer_fires i b)) s = None"
proof (cases "map_of (pendingCallbacks b) s")
  case None
  with assms show ?thesis by (simp add: timer_fires_def Let_def)
next
  case (Some p')
  with assms show ?thesis by (simp add: timer_fires_def Let_def delete_conv')
qed

text \<open>
  Claim C2. In every state the bridge reaches from its initial state, by any sequence of
  initialisations, sends, inbound messages, timer firings and terminations in any order:
  the ids of the messages posted are pairwise different; no promise has had \<open>resolve\<close>
  or \<open>reject\<close> called twice; no promise waits under two ids and no settled promise is
  still pending; a send to a registered worker takes an id that is neither pending nor
  posted before and registers its new promise under it; an inbound response whose id is
  pending resolves exactly the promise registered under that id with the response's
  result and removes the entry; an inbound message whose id is not pending (a
  duplicate, a late response after the timeout, or an id that is no string) changes
  nothing; and once the timer of a request has fired, its id is not pending.
\<close>

theorem bridge_correlation:
  assumes reach: "b = bridge_run events new_bridge"
  shows "distinct (map (\<lambda>m. fst (snd m)) (posted b))
       \<and> distinct (map fst (settled b))
       \<and> distinct (map fst (pendingCallbacks b))
       \<and> distinct (map snd (pendingCallbacks b))
       \<and> (\<forall>p\<in>fst ` set (settled b). p \<notin> snd ` set (pendingCallbacks b))
       \<and> (\<forall>name w action payload now. map_of (workers b) name = Some w \<longrightarrow>
            generateMessageId now (messageIdCounter b) \<notin> fst ` set (pendingCallbacks b)
          \<and> generateMessageId now (messageIdCounter b) \<notin> (\<lambda>m. fst (snd m)) ` set (posted b)
          \<and> fst (sendToWorker name action payload now b) = next_promise b
          \<and> pendingCallbacks (snd (sendToWorker name action payload now b)) =
              pendingCallbacks b @ [(generateMessageId now (messageIdCounter b), next_promise b)]
          \<and> posted (snd (sendToWorker name action payload now b)) =
              posted b @ [(w, generateMessageId now (messageIdCounter b), action, payload)]
          \<and> settled (snd (sendToWorker name action payload now b)) = settled b)
       \<and> (\<forall>ty s p result. ty \<noteq> JStr ''init'' \<longrightarrow> s \<noteq> [] \<longrightarrow>
            map_of (pendingCallbacks b) s = Some p \<longrightarrow>
            on_worker_message ty (JStr s) result b =
              b\<lparr> pendingCallbacks := AList.delete s (pendingCallbacks b),
                  settled := settled b @ [(p, Resolved result)] \<rparr>
          \<and> map_of (pendingCallbacks (on_worker_message ty (JStr s) result b)) s = None)
       \<and> (\<forall>ty i result. (\<forall>s. i = JStr s \<longrightarrow> map_of (pendingCallbacks b) s = None) \<longrightarrow>
            on_worker_message ty i result b = b)
       \<and> (\<forall>i s p n. i < length (timers b) \<longrightarrow> timers b ! i = (s, p, n) \<longrightarrow>
            map_of (pendingCallbacks (timer_fires i b)) s = None)"
proof -
  have inv: "bridge_inv b" unfolding reach by (rule bridge_inv_run[OF bridge_inv_new])
  note D = bridge_invD[OF inv]
  have 5: "\<forall>p\<in>fst ` set (settled b). p \<notin> snd ` set (pendingCallbacks b)"
  proof
    fix p assume "p \<in> fst ` set (settled b)"
    then obtain r where "(p, r) \<in> set (settled b)" by auto
    from D(7)[OF this] show "p \<notin> snd ` set (pendingCallbacks b)" .
  qed
  have 6: "generateMessageId now (messageIdCounter b) \<notin> fst ` set (pendingCallbacks b)
          \<and> generateMessageId now (messageIdCounter b) \<notin> (\<lambda>m. fst (snd m)) ` set (posted b)
          \<and> fst (sendToWorker name action payload now b) = next_promise b
          \<and> pendingCallbacks (snd (sendToWorker name action payload now b)) =
              pendingCallbacks b @ [(generateMessageId now (messageIdCounter b), next_promise b)]
          \<and> posted (snd (sendToWorker name action payload now b)) =
              posted b @ [(w, generateMessageId now (messageIdCounter b), action, payload)]
          \<and> settled (snd (sendToWorker name action payload now b)) = settled b"
    if w: "map_of (workers b) name = Some w" for name w action payload now
  proof -
    have u: "AList.update (generateMessageId now (messageIdCounter b)) (next_promise b)
               (pendingCallbacks b)
            = pendingCallbacks b @ [(generateMessageId now (messageIdCounter b), next_promise b)]"
      using fresh_id_not_pending[OF inv] by (rule update_fresh)
    show ?thesis
      using fresh_id_not_pending[OF inv, of now] fresh_id_not_posted[OF inv, of now] u
      by (simp add: sendToWorker_registered[OF w])
  qed
  have 7: "on_worker_message ty (JStr s) result b =
              b\<lparr> pendingCallbacks := AList.delete s (pendingCallbacks b),
                  settled := settled b @ [(p, Resolved result)] \<rparr>
          \<and> map_of (pendingCallbacks (on_worker_message ty (JStr s) result b)) s = None"
    if "ty \<noteq> JStr ''init''" "s \<noteq> []" "map_of (pendingCallbacks b) s = Some p" for ty s p result
    using on_worker_message_resolves[OF that] by (simp add: delete_conv')
  have 8: "on_worker_message ty i result b = b"
    if "\<forall>s. i = JStr s \<longrightarrow> map_of (pendingCallbacks b) s = None" for ty i result
    using that by (rule on_worker_message_ignores)
  have s6: "\<forall>name w action payload now. map_of (workers b) name = Some w \<longrightarrow>
            generateMessageId now (messageIdCounter b) \<notin> fst ` set (pendingCallbacks b)
          \<and> generateMessageId now (messageIdCounter b) \<notin> (\<lambda>m. fst (snd m)) ` set (posted b)
          \<and> fst (sendToWorker name action payload now b) = next_promise b
          \<and> pendingCallbacks (snd (sendToWorker name action payload now b)) =
              pendingCallbacks b @ [(generateMessageId now (messageIdCounter b), next_promise b)]
          \<and> posted (snd (sendToWorker name action payload now b)) =
              posted b @ [(w, generateMessageId now (messageIdCounter b), action, payload)]
          \<and> settled (snd (sendToWorker name action payload now b)) = settled b"
    by (intro allI impI) (rule 6)
  have s7: "\<forall>ty s p result. ty \<noteq> JStr ''init'' \<longrightarrow> s \<noteq> [] \<longrightarrow>
            map_of (pendingCallbacks b) s = Some p \<longrightarrow>
            on_worker_message ty (JStr s) result b =
              b\<lparr> pendingCallbacks := AList.delete s (pendingCallbacks b),
                  settled := settled b @ [(p, Resolved result)] \<rparr>
          \<and> map_of (pendingCallbacks (on_worker_message ty (JStr s) result b)) s = None"
    by (intro allI impI) (rule 7)
  have s8: "\<forall>ty i result. (\<forall>s. i = JStr s \<longrightarrow> map_of (pendingCallbacks b) s = None) \<longrightarrow>
            on_worker_message ty i result b = b"
    by (intro allI impI) (rule 8)
  have s9: "\<forall>i s p n. i < length (timers b) \<longrightarrow> timers b ! i = (s, p, n) \<longrightarrow>
            map_of (pendingCallbacks (timer_fires i b)) s = None"
    by (intro allI impI) (rule timer_fires_removes)
  show ?thesis
    apply (intro conjI)
            apply (rule D(9))
          apply (rule D(5))
         apply (rule D(3))
        apply (rule D(4))
       apply (rule 5)
      apply (rule s6)
     apply (rule s7)
     apply (rule s8)
    apply (rule s9)
    done
qed

text \<open>Witness for C2: two requests answered in the reverse order, and a duplicate of the
  first answer.\<close>

theorem bridge_correlation_witness:
  "settled (bridge_run
      [Init ''api'' True,
       Send ''api'' ''request'' (JObj []) 1000,
       Send ''api'' ''getCacheStats'' (JObj []) 1000,
       Inbound JUndefined (JStr ''msg_1000_1'') (JNum 2),
       Inbound JUndefined (JStr ''msg_1000_0'') (JNum 1),
       Inbound JUndefined (JStr ''msg_1000_1'') (JNum 3)] new_bridge)
     = [(1, Resolved (JNum 2)), (0, Resolved (JNum 1))]
   \<and> distinct (map fst (settled (bridge_run
      [Init ''api'' True,
       Send ''api'' ''request'' (JObj []) 1000,
       Send ''api'' ''getCacheStats'' (JObj []) 1000,
       Inbound JUndefined (JStr ''msg_1000_1'') (JNum 2),
       Inbound JUndefined (JStr ''msg_1000_0'') (JNum 1),
       Inbound JUndefined (JStr ''msg_1000_1'') (JNum 3)] new_bridge)))
   \<and> distinct (map (\<lambda>m. fst (snd m)) (posted (bridge_run
      [Init ''api'' True,
       Send ''api'' ''request'' (JObj []) 1000,
       Send ''api'' ''getCacheStats'' (JObj []) 1000,
       Inbound JUndefined (JStr ''msg_1000_1'') (JNum 2),
       Inbound JUndefined (JStr ''msg_1000_0'') (JNum 1),
       Inbound JUndefined (JStr ''msg_1000_1'') (JNum 3)] new_bridge)))"
proof -
  let ?es = "[Init ''api'' True,
       Send ''api'' ''request'' (JObj []) 1000,
       Send ''api'' ''getCacheStats'' (JObj []) 1000,
       Inbound JUndefined (JStr ''msg_1000_1'') (JNum 2),
       Inbound JUndefined (JStr ''msg_1000_0'') (JNum 1),
       Inbound JUndefined (JStr ''msg_1000_1'') (JNum 3)]"
  have s: "settled (bridge_run ?es new_bridge) = [(1, Resolved (JNum 2)), (0, Resolved (JNum 1))]"
    by (simp add: bridge_run_def new_bridge_def initWorker_def sendToWorker_def
          on_worker_message_def Let_def id0 id1)
  from bridge_correlation[OF refl, of ?es]
  have "distinct (map (\<lambda>m. fst (snd m)) (posted (bridge_run ?es new_bridge)))"
    and "distinct (map fst (settled (bridge_run ?es new_bridge)))"
    by (rule conjunct1, rule conjunct2[THEN conjunct1])
  with s show ?thesis by (intro conjI)
qed

section \<open>Properties of the API service\<close>

lemma request_resolved_clears_loading:
  assumes "set (pendingRequests svc) \<subseteq> {requestId}" and "truthy showLoader"
  shows "pendingRequests (snd (request_finish tem now now' requestId showLoader
                                  (WorkerResolved response) svc)) = []"
    and "setLoading (JBool False) \<in> set (dispatched (snd (request_finish tem now now' requestId
                                  showLoader (WorkerResolved response) svc)))"
proof -
  have "removeAll requestId xs = []" if "set xs \<subseteq> {requestId}" for xs :: "string list"
    using that by (induction xs) auto
  from this[OF assms(1)] have e: "removeAll requestId (pendingRequests svc) = []" .
  show "pendingRequests (snd (request_finish tem now now' requestId showLoader
                                  (WorkerResolved response) svc)) = []"
    using assms(2)
    by (simp add: request_finish_def Let_def e request_catch_def handleError_def
          split: sum.splits)
  show "setLoading (JBool False) \<in> set (dispatched (snd (request_finish tem now now' requestId
                                  showLoader (WorkerResolved response) svc)))"
    using assms(2)
    by (simp add: request_finish_def Let_def e request_catch_def handleError_def
          split: sum.splits)
qed

lemma request_rejected_keeps_pending:
  "pendingRequests (snd (request_finish tem now now' requestId showLoader
                            (WorkerRejected msg) svc)) = pendingRequests svc"
  "dispatched (snd (request_finish tem now now' requestId showLoader (WorkerRejected msg) svc))
     = dispatched svc @
       [setError (JObj [(''message'', or_else (or_else (JStr msg) (JStr connection_error_message))
                                         (JStr server_error_message)),
                        (''code'', JStr ''NETWORK_ERROR''),
                        (''timestamp'', JNum now)])]"
  by (simp_all add: request_finish_def request_catch_def handleError_def Let_def propv_def
        or_else_def)

text \<open>
  Claim C4, evaluated on the code. \<open>request('GET', 'incidents')\<close> with the loader, on a
  new service at clock reading 1000, whose awaited \<open>sendToWorker\<close> promise is rejected by
  the bridge's timeout: the request id is still in \<open>pendingRequests\<close> after the request
  has finished, the only \<open>setLoading\<close> action dispatched is \<open>setLoading(true)\<close>, and the
  store's \<open>loading\<close> slice reduced from the dispatched actions is \<open>true\<close>. The resolved
  paths, success or not, do remove the id and dispatch \<open>setLoading(false)\<close> (lemma
  \<open>request_resolved_clears_loading\<close>); the rejected path skips both (lemma
  \<open>request_rejected_keeps_pending\<close>).
\<close>

theorem request_timeout_leaves_loading:
  "pendingRequests (snd (request_finish [] 31000 31001 ''GET:http://localhost:3000/incidents:1000''
       (JBool True) (WorkerRejected (timeout_message ''api''))
       (snd (request_start (\<lambda>ps. []) 1000 ''GET'' ''incidents''
               \<lparr> o_body = JUndefined, o_params = None, o_useCache = JUndefined,
                 o_showLoader = JUndefined \<rparr> new_api_service))))
     = [''GET:http://localhost:3000/incidents:1000'']
   \<and> fst (request_start (\<lambda>ps. []) 1000 ''GET'' ''incidents''
               \<lparr> o_body = JUndefined, o_params = None, o_useCache = JUndefined,
                 o_showLoader = JUndefined \<rparr> new_api_service)
     = ''GET:http://localhost:3000/incidents:1000''
   \<and> dispatched (snd (request_finish [] 31000 31001 ''GET:http://localhost:3000/incidents:1000''
       (JBool True) (WorkerRejected (timeout_message ''api''))
       (snd (request_start (\<lambda>ps. []) 1000 ''GET'' ''incidents''
               \<lparr> o_body = JUndefined, o_params = None, o_useCache = JUndefined,
                 o_showLoader = JUndefined \<rparr> new_api_service))))
     = [setLoading (JBool True),
        setError (JObj [(''message'', JStr (timeout_message ''api'')),
                        (''code'', JStr ''NETWORK_ERROR''),
                        (''timestamp'', JNum 31000)])]
   \<and> map_sum id loading
        (reduceAll (initialState False)
           (map own_props
              [setLoading (JBool True),
               setError (JObj [(''message'', JStr (timeout_message ''api'')),
                               (''code'', JStr ''NETWORK_ERROR''),
                               (''timestamp'', JNum 31000)])]))
     = Inr (JBool True)"
proof -
  have url: "build_url (\<lambda>ps. []) ''incidents''
               \<lparr> o_body = JUndefined, o_params = None, o_useCache = JUndefined,
                 o_showLoader = JUndefined \<rparr> = ''http://localhost:3000/incidents''"
    by (simp add: build_url_def apiUrl_def API_BASE_URL_def starts_with_def)
  have rid: "request_id ''GET'' ''http://localhost:3000/incidents'' 1000
               = ''GET:http://localhost:3000/incidents:1000''"
    by (simp add: request_id_def show_nat_1000)
  have st: "request_start (\<lambda>ps. []) 1000 ''GET'' ''incidents''
               \<lparr> o_body = JUndefined, o_params = None, o_useCache = JUndefined,
                 o_showLoader = JUndefined \<rparr> new_api_service
          = (''GET:http://localhost:3000/incidents:1000'',
             \<lparr> pendingRequests = [''GET:http://localhost:3000/incidents:1000''],
               dispatched = [setLoading (JBool True)],
               worker_requests =
                 [\<lparr> p_url = Some ''http://localhost:3000/incidents'', p_method = Some ''GET'',
                    p_body = JUndefined, p_headers = None, p_useCache = JBool True,
                    p_cacheTTL = Some 300000, p_pattern = None, p_olderThan = JUndefined \<rparr>] \<rparr>)"
    by (simp add: request_start_def Let_def url rid new_api_service_def default_param_def)
  have tm: "truthy (JStr (timeout_message ''api''))" by (simp add: timeout_message_def)
  have red: "map_sum id loading
        (reduceAll (initialState False)
           (map own_props
              [setLoading (JBool True),
               setError (JObj [(''message'', JStr (timeout_message ''api'')),
                               (''code'', JStr ''NETWORK_ERROR''),
                               (''timestamp'', JNum 31000)])]))
     = Inr (JBool True)"
    by (simp add: setLoading_def setError_def createAction_def reducer_defs initialState_def)
  have oe: "or_else (or_else (JStr (timeout_message ''api'')) (JStr connection_error_message))
              (JStr server_error_message) = JStr (timeout_message ''api'')"
    using tm by (simp add: or_else_def)
  have a: "pendingRequests (snd (request_finish [] 31000 31001 ''GET:http://localhost:3000/incidents:1000''
       (JBool True) (WorkerRejected (timeout_message ''api''))
       (snd (request_start (\<lambda>ps. []) 1000 ''GET'' ''incidents''
               \<lparr> o_body = JUndefined, o_params = None, o_useCache = JUndefined,
                 o_showLoader = JUndefined \<rparr> new_api_service))))
     = [''GET:http://localhost:3000/incidents:1000'']"
    by (simp add: st request_rejected_keeps_pending(1))
  have b: "fst (request_start (\<lambda>ps. []) 1000 ''GET'' ''incidents''
               \<lparr> o_body = JUndefined, o_params = None, o_useCache = JUndefined,
                 o_showLoader = JUndefined \<rparr> new_api_service)
     = ''GET:http://localhost:3000/incidents:1000''"
    by (simp add: st)
  have c: "dispatched (snd (request_finish [] 31000 31001 ''GET:http://localhost:3000/incidents:1000''
       (JBool True) (WorkerRejected (timeout_message ''api''))
       (snd (request_start (\<lambda>ps. []) 1000 ''GET'' ''incidents''
               \<lparr> o_body = JUndefined, o_params = None, o_useCache = JUndefined,
                 o_showLoader = JUndefined \<rparr> new_api_service))))
     = [setLoading (JBool True),
        setError (JObj [(''message'', JStr (timeout_message ''api'')),
                        (''code'', JStr ''NETWORK_ERROR''),
                        (''timestamp'', JNum 31000)])]"
    by (simp only: request_rejected_keeps_pending(2) oe st snd_conv api_service.simps append.simps)
  from a b c red show ?thesis by (intro conjI)
qed

end
